theory Spec2Isabelle
  imports Main "HOL-Library.Sublist" "HOL-Library.Multiset"
begin

section \<open>Strings: the Go library functions the annotator calls\<close>

text \<open>
  A Go \<open>string\<close> and a \<open>[]byte\<close> are both modelled as \<open>string\<close>, a list of bytes.
  Indices and lengths count bytes, as in Go.
\<close>

definition strings_Contains :: "string \<Rightarrow> string \<Rightarrow> bool" where
  \<comment> \<open>\<open>strings.Contains(s, substr)\<close>\<close>
  "strings_Contains s substr = sublist substr s"

definition strings_HasSuffix :: "string \<Rightarrow> string \<Rightarrow> bool" where
  "strings_HasSuffix s suf = suffix suf s"

definition strings_TrimSuffix :: "string \<Rightarrow> string \<Rightarrow> string" where
  \<comment> \<open>\<open>strings.TrimSuffix\<close>: drops \<open>suf\<close> once if \<open>s\<close> ends with it\<close>
  "strings_TrimSuffix s suf =
     (if suffix suf s then take (length s - length suf) s else s)"

definition strings_TrimPrefix :: "string \<Rightarrow> string \<Rightarrow> string" where
  "strings_TrimPrefix s pre =
     (if prefix pre s then drop (length pre) s else s)"

text \<open>
  \<open>strings.TrimSpace\<close> removes the leading and trailing white space of a string, white
  space being the runes of \<open>unicode.IsSpace\<close>. On bytes these are the six ASCII
  characters and the UTF-8 encodings of U+0085, U+00A0, U+1680, U+2000 to U+200A, U+2028,
  U+2029, U+202F, U+205F and U+3000. UTF-8 is prefix-free and a decoded rune is white
  space exactly when the bytes read are one of these encodings, so trimming rune by rune
  is trimming these byte strings.
\<close>

definition whiteSpace :: "string list" where
  "whiteSpace =
     [[CHR 0x09], [CHR 0x0A], [CHR 0x0B], [CHR 0x0C], [CHR 0x0D], [CHR 0x20],
      [CHR 0xC2, CHR 0x85], [CHR 0xC2, CHR 0xA0],
      [CHR 0xE1, CHR 0x9A, CHR 0x80],
      [CHR 0xE2, CHR 0x80, CHR 0x80], [CHR 0xE2, CHR 0x80, CHR 0x81],
      [CHR 0xE2, CHR 0x80, CHR 0x82], [CHR 0xE2, CHR 0x80, CHR 0x83],
      [CHR 0xE2, CHR 0x80, CHR 0x84], [CHR 0xE2, CHR 0x80, CHR 0x85],
      [CHR 0xE2, CHR 0x80, CHR 0x86], [CHR 0xE2, CHR 0x80, CHR 0x87],
      [CHR 0xE2, CHR 0x80, CHR 0x88], [CHR 0xE2, CHR 0x80, CHR 0x89],
      [CHR 0xE2, CHR 0x80, CHR 0x8A],
      [CHR 0xE2, CHR 0x80, CHR 0xA8], [CHR 0xE2, CHR 0x80, CHR 0xA9],
      [CHR 0xE2, CHR 0x80, CHR 0xAF], [CHR 0xE2, CHR 0x81, CHR 0x9F],
      [CHR 0xE3, CHR 0x80, CHR 0x80]]"

definition leadingSpace :: "string \<Rightarrow> string option" where
  \<comment> \<open>the white-space rune \<open>s\<close> starts with, if any\<close>
  "leadingSpace s = find (\<lambda>w. prefix w s) whiteSpace"

definition trailingSpace :: "string \<Rightarrow> string option" where
  \<comment> \<open>the white-space rune \<open>s\<close> ends with, if any\<close>
  "trailingSpace s = find (\<lambda>w. suffix w s) whiteSpace"

lemma whiteSpace_nonempty: "w \<in> set whiteSpace \<Longrightarrow> w \<noteq> []"
  by (auto simp: whiteSpace_def)

lemma leadingSpace_Some:
  "leadingSpace s = Some w \<Longrightarrow> w \<in> set whiteSpace \<and> prefix w s \<and> w \<noteq> []"
  unfolding leadingSpace_def
  by (metis find_Some_iff nth_mem whiteSpace_nonempty)

lemma trailingSpace_Some:
  "trailingSpace s = Some w \<Longrightarrow> w \<in> set whiteSpace \<and> suffix w s \<and> w \<noteq> []"
  unfolding trailingSpace_def
  by (metis find_Some_iff nth_mem whiteSpace_nonempty)

function trimLeft :: "string \<Rightarrow> string" where
  "trimLeft s =
     (case leadingSpace s of
        None \<Rightarrow> s
      | Some w \<Rightarrow> trimLeft (drop (length w) s))"
  by pat_completeness auto
termination
proof (relation "measure length")
  show "wf (measure length)" by simp
next
  fix s w
  assume "leadingSpace s = Some w"
  then have "prefix w s" and "w \<noteq> []"
    using leadingSpace_Some by blast+
  then have "0 < length w" and "length w \<le> length s"
    by (simp_all add: prefix_length_le)
  then show "(drop (length w) s, s) \<in> measure length"
    by (cases w) auto
qed

function trimRight :: "string \<Rightarrow> string" where
  "trimRight s =
     (case trailingSpace s of
        None \<Rightarrow> s
      | Some w \<Rightarrow> trimRight (take (length s - length w) s))"
  by pat_completeness auto
termination
proof (relation "measure length")
  show "wf (measure length)" by simp
next
  fix s w
  assume "trailingSpace s = Some w"
  then have "suffix w s" and "w \<noteq> []"
    using trailingSpace_Some by blast+
  then have "0 < length w" and "length w \<le> length s"
    by (simp_all add: suffix_length_le)
  then show "(take (length s - length w) s, s) \<in> measure length"
    by (cases w) auto
qed

declare trimLeft.simps [simp del] trimRight.simps [simp del]

definition strings_TrimSpace :: "string \<Rightarrow> string" where
  "strings_TrimSpace s = trimRight (trimLeft s)"

text \<open>
  \<open>bytes.Split(src, "\n")\<close> and \<open>bytes.Join(lines, "\n")\<close>: a text of \<open>n\<close> newlines
  has \<open>n + 1\<close> lines, the last one possibly empty.
\<close>

fun bytes_Split :: "string \<Rightarrow> string list" where
  "bytes_Split [] = [[]]"
| "bytes_Split (c # cs) =
     (if c = CHR 0x0A then [] # bytes_Split cs
      else (case bytes_Split cs of
              l # ls \<Rightarrow> (c # l) # ls
            | [] \<Rightarrow> [[c]]))"

fun bytes_Join :: "string list \<Rightarrow> string" where
  "bytes_Join [] = []"
| "bytes_Join [l] = l"
| "bytes_Join (l # ls) = l @ CHR 0x0A # bytes_Join ls"

section \<open>The directive pattern\<close>

text \<open>
  \<open>nameRegex = regexp.MustCompile(`//\s*@name\s+\S+`)\<close>. In Go's syntax \<open>\s\<close> is the
  class \<open>[\t\n\f\r ]\<close> (no vertical tab, no Unicode space) and \<open>\S\<close> its complement, which
  every byte of a multi-byte or invalid sequence falls in. The pattern starts with a
  literal and none of its repetitions can give characters back to what follows, so whether
  it matches at a position is decided by one left-to-right scan.
  \<open>FindStringIndex\<close> returns the leftmost match; the annotator reads only its start
  \<open>loc[0]\<close>, which is what \<open>nameRegex_FindStringIndex\<close> returns.
\<close>

definition reSpace :: "char \<Rightarrow> bool" where
  "reSpace c = (c = CHR 0x09 \<or> c = CHR 0x0A \<or> c = CHR 0x0C \<or> c = CHR 0x0D \<or> c = CHR 0x20)"

definition stripPrefix :: "string \<Rightarrow> string \<Rightarrow> string option" where
  "stripPrefix pre s = (if prefix pre s then Some (drop (length pre) s) else None)"

definition nameRegex_matchAt :: "string \<Rightarrow> bool" where
  "nameRegex_matchAt s =
     (case stripPrefix ''//'' s of
        None \<Rightarrow> False
      | Some r \<Rightarrow>
          (case stripPrefix ''@name'' (dropWhile reSpace r) of
             None \<Rightarrow> False
           | Some t \<Rightarrow>
               (case t of
                  [] \<Rightarrow> False
                | c # _ \<Rightarrow> reSpace c \<and> dropWhile reSpace t \<noteq> [])))"

fun nameRegex_FindStringIndex :: "string \<Rightarrow> nat option" where
  "nameRegex_FindStringIndex [] = None"
| "nameRegex_FindStringIndex (c # cs) =
     (if nameRegex_matchAt (c # cs) then Some 0
      else map_option Suc (nameRegex_FindStringIndex cs))"

section \<open>Results and errors\<close>

type_synonym path = "string list"
  \<comment> \<open>a cleaned path, as the list of its segments\<close>

text \<open>
  An error value is the chain of messages \<open>fmt.Errorf\<close> builds around an error of the
  operating system or of the parser; each constructor is one format string of the source.
\<close>

datatype error =
    External string
  | GettingWorkingDirectory error
  | ProcessingPath path error
  | WalkingDirectory path error
  | ResolvingRelativePath error
  | ReadingFile error
  | ParsingFile error
  | WritingFile error
  | WritingToFile error
  | EncounteredErrors nat

record processingResult =
  FilesProcessed :: nat
  AnnotationsAdded :: nat
  AnnotationsReplaced :: nat
  Errors :: "error list"

definition emptyResult :: processingResult where
  "emptyResult = \<lparr>FilesProcessed = 0, AnnotationsAdded = 0, AnnotationsReplaced = 0, Errors = []\<rparr>"

definition AddFile :: "processingResult \<Rightarrow> processingResult" where
  "AddFile r = r\<lparr>FilesProcessed := FilesProcessed r + 1\<rparr>"

definition AddAnnotation :: "processingResult \<Rightarrow> processingResult" where
  "AddAnnotation r = r\<lparr>AnnotationsAdded := AnnotationsAdded r + 1\<rparr>"

definition ReplaceAnnotation :: "processingResult \<Rightarrow> processingResult" where
  "ReplaceAnnotation r = r\<lparr>AnnotationsReplaced := AnnotationsReplaced r + 1\<rparr>"

definition AddError :: "error \<Rightarrow> processingResult \<Rightarrow> processingResult" where
  "AddError err r = r\<lparr>Errors := Errors r @ [err]\<rparr>"

definition HasErrors :: "processingResult \<Rightarrow> bool" where
  "HasErrors r = (length (Errors r) > 0)"

section \<open>The line patcher\<close>

text \<open>
  \<open>applyAnnotations\<close> walks the lines in order. The state of the loop is the lines, the
  result counters and the count of lines changed; \<open>applyAnnotations_body\<close> is one
  iteration. The index \<open>loc[0]\<close> is found in the trimmed line and used to cut the line
  itself, as in the source. The progress messages are not modelled, nor is the file name,
  which only they use.
\<close>

definition expectedDirective :: "string \<Rightarrow> string \<Rightarrow> string" where
  \<comment> \<open>\<open>fmt.Sprintf("@name %s%s", prefix, name)\<close>\<close>
  "expectedDirective pre name = ''@name '' @ pre @ name"

definition applyAnnotations_body ::
  "(int \<rightharpoonup> string) \<Rightarrow> string \<Rightarrow> nat \<Rightarrow>
   string list \<times> processingResult \<times> nat \<Rightarrow> string list \<times> processingResult \<times> nat" where
  "applyAnnotations_body annotations pre i st =
     (case st of (lines, result, annotationsApplied) \<Rightarrow>
        (case annotations (int i) of
           None \<Rightarrow> st
         | Some name \<Rightarrow>
             (let expected = expectedDirective pre name;
                  lineStr = strings_TrimSpace (lines ! i)
              in if strings_Contains lineStr expected then st
                 else (case nameRegex_FindStringIndex lineStr of
                         Some loc0 \<Rightarrow>
                           (lines[i := take loc0 (lines ! i) @ '' // '' @ expected],
                            ReplaceAnnotation result, annotationsApplied + 1)
                       | None \<Rightarrow>
                           (lines[i := lines ! i @ '' // '' @ expected],
                            AddAnnotation result, annotationsApplied + 1)))))"

definition applyAnnotations ::
  "string list \<Rightarrow> (int \<rightharpoonup> string) \<Rightarrow> string \<Rightarrow> processingResult \<Rightarrow>
   string list \<times> processingResult \<times> nat" where
  "applyAnnotations lines annotations pre result =
     fold (applyAnnotations_body annotations pre) [0..<length lines] (lines, result, 0)"

section \<open>Syntax trees\<close>

text \<open>
  The parser \<open>go/parser\<close> is not part of the repository; the model takes its result. Of
  a syntax tree the annotator reads only the type declarations (\<open>*ast.TypeSpec\<close>), the
  shape of the declared type, the lines of positions and the comments of the file, so a
  node is either a type declaration or any other node, each with its children in source
  order. The lines \<open>fset.Position(ts.Pos()).Line\<close> and \<open>fset.Position(ts.End()).Line\<close>
  are the fields \<open>ts_PosLine\<close> and \<open>ts_EndLine\<close>; lines count from 1.
\<close>

datatype expr =
    Ident string
  | IndexExpr expr expr
  | StructType
  | OtherExpr

record comment =
  c_Line :: int
  c_Text :: string

record typeSpec =
  ts_Doc :: "comment list option"
  ts_Name :: string
  ts_Type :: expr
  ts_PosLine :: int
  ts_EndLine :: int

datatype node =
    TypeSpec typeSpec "node list"
  | OtherNode "node list"

record astFile =
  f_Root :: node
  f_Comments :: "comment list list"

fun children :: "node \<Rightarrow> node list" where
  "children (TypeSpec ts ns) = ns"
| "children (OtherNode ns) = ns"

text \<open>
  \<open>ast.Inspect(root, f)\<close> calls \<open>f\<close> on a node and, when it answers true, on the
  children in order; the visitors of the annotator are closures over maps, which the model
  threads through as the state \<open>s\<close>. The closing call \<open>f(nil)\<close> is left out: every
  visitor here returns at once on a node that is not a type declaration.
\<close>

fun ast_Inspect :: "(node \<Rightarrow> 's \<Rightarrow> bool \<times> 's) \<Rightarrow> node \<Rightarrow> 's \<Rightarrow> 's" where
  "ast_Inspect f (TypeSpec ts ns) s =
     (case f (TypeSpec ts ns) s of
        (True, s') \<Rightarrow> fold (ast_Inspect f) ns s'
      | (False, s') \<Rightarrow> s')"
| "ast_Inspect f (OtherNode ns) s =
     (case f (OtherNode ns) s of
        (True, s') \<Rightarrow> fold (ast_Inspect f) ns s'
      | (False, s') \<Rightarrow> s')"

text \<open>
  \<open>ast.IsExported(name)\<close> decodes the first rune of the name with
  \<open>utf8.DecodeRuneInString\<close> and asks \<open>unicode.IsUpper\<close>. The decoder reads one to
  four bytes and gives \<open>RuneError\<close> (U+FFFD) for the empty string and for bytes that
  are not a well-formed encoding. \<open>unicode.IsUpper\<close> looks code points up to U+00FF up
  in the Latin-1 property table and the others in the range table of the upper-case
  letters (category Lu, the 1831 letters of Unicode 14.0 and 15.0), whose entries are
  first code point, last code point and stride.
\<close>

definition utf8_cont :: "char \<Rightarrow> bool" where
  \<comment> \<open>a continuation byte, \<open>0x80\<close> to \<open>0xBF\<close>\<close>
  "utf8_cont c = ((0x80::int) \<le> of_char c \<and> (of_char c :: int) \<le> 0xBF)"

definition RuneError :: int where
  "RuneError = 0xFFFD"

definition utf8_DecodeRuneInString :: "string \<Rightarrow> int" where
  "utf8_DecodeRuneInString s =
     (case s of
        [] \<Rightarrow> RuneError
      | c0 # rest \<Rightarrow>
     (let b0 = (of_char c0 :: int)
      in if b0 < 0x80 then b0
         else if 0xC2 \<le> b0 \<and> b0 \<le> 0xDF then
           (case rest of
              c1 # _ \<Rightarrow>
                if utf8_cont c1 then (b0 - 0xC0) * 64 + (of_char c1 - 0x80) else RuneError
            | [] \<Rightarrow> RuneError)
         else if 0xE0 \<le> b0 \<and> b0 \<le> 0xEF then
           (case rest of
              c1 # c2 # _ \<Rightarrow>
                (let b1 = (of_char c1 :: int);
                     lo = (if b0 = 0xE0 then 0xA0 else 0x80);
                     hi = (if b0 = 0xED then 0x9F else 0xBF)
                 in if lo \<le> b1 \<and> b1 \<le> hi \<and> utf8_cont c2
                    then (b0 - 0xE0) * 4096 + (b1 - 0x80) * 64 + (of_char c2 - 0x80)
                    else RuneError)
            | _ \<Rightarrow> RuneError)
         else if 0xF0 \<le> b0 \<and> b0 \<le> 0xF4 then
           (case rest of
              c1 # c2 # c3 # _ \<Rightarrow>
                (let b1 = (of_char c1 :: int);
                     lo = (if b0 = 0xF0 then 0x90 else 0x80);
                     hi = (if b0 = 0xF4 then 0x8F else 0xBF)
                 in if lo \<le> b1 \<and> b1 \<le> hi \<and> utf8_cont c2 \<and> utf8_cont c3
                    then (b0 - 0xF0) * 262144 + (b1 - 0x80) * 4096
                         + (of_char c2 - 0x80) * 64 + (of_char c3 - 0x80)
                    else RuneError)
            | _ \<Rightarrow> RuneError)
         else RuneError))"

definition unicode_Upper :: "(int \<times> int \<times> int) list" where
  \<comment> \<open>the table \<open>unicode.Upper\<close> above U+00FF\<close>
  "unicode_Upper =
     [(0x0100, 0x0136, 2), (0x0139, 0x0147, 2), (0x014A, 0x0178, 2), (0x0179, 0x017D, 2),
      (0x0181, 0x0182, 1), (0x0184, 0x0186, 2), (0x0187, 0x0189, 2), (0x018A, 0x018B, 1),
      (0x018E, 0x0191, 1), (0x0193, 0x0194, 1), (0x0196, 0x0198, 1), (0x019C, 0x019D, 1),
      (0x019F, 0x01A0, 1), (0x01A2, 0x01A6, 2), (0x01A7, 0x01A9, 2), (0x01AC, 0x01AE, 2),
      (0x01AF, 0x01B1, 2), (0x01B2, 0x01B3, 1), (0x01B5, 0x01B7, 2), (0x01B8, 0x01B8, 1),
      (0x01BC, 0x01BC, 1), (0x01C4, 0x01CD, 3), (0x01CF, 0x01DB, 2), (0x01DE, 0x01EE, 2),
      (0x01F1, 0x01F1, 1), (0x01F4, 0x01F6, 2), (0x01F7, 0x01F8, 1), (0x01FA, 0x0232, 2),
      (0x023A, 0x023B, 1), (0x023D, 0x023E, 1), (0x0241, 0x0243, 2), (0x0244, 0x0246, 1),
      (0x0248, 0x024E, 2), (0x0370, 0x0372, 2), (0x0376, 0x0376, 1), (0x037F, 0x037F, 1),
      (0x0386, 0x0388, 2), (0x0389, 0x038A, 1), (0x038C, 0x038E, 2), (0x038F, 0x0391, 2),
      (0x0392, 0x03A1, 1), (0x03A3, 0x03AB, 1), (0x03CF, 0x03CF, 1), (0x03D2, 0x03D4, 1),
      (0x03D8, 0x03EE, 2), (0x03F4, 0x03F4, 1), (0x03F7, 0x03F9, 2), (0x03FA, 0x03FA, 1),
      (0x03FD, 0x042F, 1), (0x0460, 0x0480, 2), (0x048A, 0x04C0, 2), (0x04C1, 0x04CD, 2),
      (0x04D0, 0x052E, 2), (0x0531, 0x0556, 1), (0x10A0, 0x10C5, 1), (0x10C7, 0x10C7, 1),
      (0x10CD, 0x10CD, 1), (0x13A0, 0x13F5, 1), (0x1C90, 0x1CBA, 1), (0x1CBD, 0x1CBF, 1),
      (0x1E00, 0x1E94, 2), (0x1E9E, 0x1EFE, 2), (0x1F08, 0x1F0F, 1), (0x1F18, 0x1F1D, 1),
      (0x1F28, 0x1F2F, 1), (0x1F38, 0x1F3F, 1), (0x1F48, 0x1F4D, 1), (0x1F59, 0x1F5F, 2),
      (0x1F68, 0x1F6F, 1), (0x1FB8, 0x1FBB, 1), (0x1FC8, 0x1FCB, 1), (0x1FD8, 0x1FDB, 1),
      (0x1FE8, 0x1FEC, 1), (0x1FF8, 0x1FFB, 1), (0x2102, 0x2102, 1), (0x2107, 0x2107, 1),
      (0x210B, 0x210D, 1), (0x2110, 0x2112, 1), (0x2115, 0x2115, 1), (0x2119, 0x211D, 1),
      (0x2124, 0x212A, 2), (0x212B, 0x212D, 1), (0x2130, 0x2133, 1), (0x213E, 0x213F, 1),
      (0x2145, 0x2145, 1), (0x2183, 0x2183, 1), (0x2C00, 0x2C2F, 1), (0x2C60, 0x2C62, 2),
      (0x2C63, 0x2C64, 1), (0x2C67, 0x2C6D, 2), (0x2C6E, 0x2C70, 1), (0x2C72, 0x2C72, 1),
      (0x2C75, 0x2C75, 1), (0x2C7E, 0x2C80, 1), (0x2C82, 0x2CE2, 2), (0x2CEB, 0x2CED, 2),
      (0x2CF2, 0x2CF2, 1), (0xA640, 0xA66C, 2), (0xA680, 0xA69A, 2), (0xA722, 0xA72E, 2),
      (0xA732, 0xA76E, 2), (0xA779, 0xA77D, 2), (0xA77E, 0xA786, 2), (0xA78B, 0xA78D, 2),
      (0xA790, 0xA792, 2), (0xA796, 0xA7AA, 2), (0xA7AB, 0xA7AE, 1), (0xA7B0, 0xA7B4, 1),
      (0xA7B6, 0xA7C4, 2), (0xA7C5, 0xA7C7, 1), (0xA7C9, 0xA7C9, 1), (0xA7D0, 0xA7D0, 1),
      (0xA7D6, 0xA7D8, 2), (0xA7F5, 0xA7F5, 1), (0xFF21, 0xFF3A, 1), (0x10400, 0x10427, 1),
      (0x104B0, 0x104D3, 1), (0x10570, 0x1057A, 1), (0x1057C, 0x1058A, 1), (0x1058C, 0x10592, 1),
      (0x10594, 0x10595, 1), (0x10C80, 0x10CB2, 1), (0x118A0, 0x118BF, 1), (0x16E40, 0x16E5F, 1),
      (0x1D400, 0x1D419, 1), (0x1D434, 0x1D44D, 1), (0x1D468, 0x1D481, 1), (0x1D49C, 0x1D49E, 2),
      (0x1D49F, 0x1D4A5, 3), (0x1D4A6, 0x1D4A6, 1), (0x1D4A9, 0x1D4AC, 1), (0x1D4AE, 0x1D4B5, 1),
      (0x1D4D0, 0x1D4E9, 1), (0x1D504, 0x1D505, 1), (0x1D507, 0x1D50A, 1), (0x1D50D, 0x1D514, 1),
      (0x1D516, 0x1D51C, 1), (0x1D538, 0x1D539, 1), (0x1D53B, 0x1D53E, 1), (0x1D540, 0x1D544, 1),
      (0x1D546, 0x1D546, 1), (0x1D54A, 0x1D550, 1), (0x1D56C, 0x1D585, 1), (0x1D5A0, 0x1D5B9, 1),
      (0x1D5D4, 0x1D5ED, 1), (0x1D608, 0x1D621, 1), (0x1D63C, 0x1D655, 1), (0x1D670, 0x1D689, 1),
      (0x1D6A8, 0x1D6C0, 1), (0x1D6E2, 0x1D6FA, 1), (0x1D71C, 0x1D734, 1), (0x1D756, 0x1D76E, 1),
      (0x1D790, 0x1D7A8, 1), (0x1D7CA, 0x1D7CA, 1), (0x1E900, 0x1E921, 1)]"

definition unicode_IsUpper :: "int \<Rightarrow> bool" where
  "unicode_IsUpper r =
     (if r \<le> 0xFF
      then (0x41 \<le> r \<and> r \<le> 0x5A) \<or> (0xC0 \<le> r \<and> r \<le> 0xD6) \<or> (0xD8 \<le> r \<and> r \<le> 0xDE)
      else list_ex (\<lambda>(lo, hi, stride). lo \<le> r \<and> r \<le> hi \<and> (r - lo) mod stride = 0)
             unicode_Upper)"

definition IsExported :: "string \<Rightarrow> bool" where
  "IsExported name = unicode_IsUpper (utf8_DecodeRuneInString name)"

section \<open>Type shapes and names\<close>

record typeInfo =
  Name :: string
  IsGeneric :: bool
  IsAlias :: bool
  InnerType :: string
  GenericBase :: string

definition zeroTypeInfo :: typeInfo where
  \<comment> \<open>\<open>TypeInfo{}\<close>\<close>
  "zeroTypeInfo = \<lparr>Name = [], IsGeneric = False, IsAlias = False, InnerType = [], GenericBase = []\<rparr>"

definition basicTypes :: "string \<Rightarrow> bool" where
  "basicTypes name =
     (name \<in> set [''string'', ''int'', ''int32'', ''int64'', ''uint'', ''uint32'', ''uint64'',
                  ''float32'', ''float64'', ''bool'', ''byte'', ''rune''])"

definition handleIndexExpr :: "typeInfo \<Rightarrow> expr \<Rightarrow> expr \<Rightarrow> typeSpec \<Rightarrow> typeInfo" where
  \<comment> \<open>the index expression is passed as its two parts, \<open>indexExpr.X\<close> and \<open>indexExpr.Index\<close>\<close>
  "handleIndexExpr info x index ts =
     (case x of
        Ident identName \<Rightarrow>
          (let info1 = (if ts_Name ts \<noteq> identName then info\<lparr>IsAlias := True\<rparr>
                        else info\<lparr>IsGeneric := True\<rparr>);
               info2 = info1\<lparr>GenericBase := identName\<rparr>
           in (case index of
                 Ident subTypeName \<Rightarrow> info2\<lparr>InnerType := subTypeName\<rparr>
               | _ \<Rightarrow> info2))
      | _ \<Rightarrow> info)"

definition handleIdentType :: "typeInfo \<Rightarrow> string \<Rightarrow> typeInfo" where
  "handleIdentType info identName =
     (if basicTypes identName then zeroTypeInfo else info\<lparr>IsAlias := True\<rparr>)"

definition extractTypeInfo :: "typeSpec \<Rightarrow> typeInfo" where
  "extractTypeInfo ts =
     (let info = zeroTypeInfo\<lparr>Name := ts_Name ts\<rparr>
      in (case ts_Type ts of
            IndexExpr x index \<Rightarrow> handleIndexExpr info x index ts
          | Ident identName \<Rightarrow> handleIdentType info identName
          | StructType \<Rightarrow> info
          | OtherExpr \<Rightarrow> zeroTypeInfo))"

definition stripSuffixes :: "string \<Rightarrow> string" where
  \<comment> \<open>\<open>strings.TrimSuffix(strings.TrimSuffix(s, "Response"), "Request")\<close>, written twice in
      \<open>generateAnnotationNameWithContext\<close>\<close>
  "stripSuffixes s = strings_TrimSuffix (strings_TrimSuffix s ''Response'') ''Request''"

definition generateAnnotationNameWithContext ::
  "typeInfo \<Rightarrow> string \<Rightarrow> string set \<Rightarrow> string \<times> string" where
  "generateAnnotationNameWithContext info variant searchResponseInnerTypes =
     (if Name info = [] then ([], [])
      else if (IsGeneric info \<or> IsAlias info) \<and> GenericBase info = ''SearchResponse'' then
        (Name info @ ''Res'',
         if InnerType info \<noteq> [] then
           (let itemBase = stripSuffixes (InnerType info)
            in if variant = ''response'' then itemBase @ ''ItemRes'' else itemBase @ ''ItemReq'')
         else [])
      else
        (let base = stripSuffixes (Name info)
         in if Name info \<in> searchResponseInnerTypes then
              (if variant = ''response'' then base @ ''ItemRes'' else base @ ''ItemReq'', [])
            else
              (if variant = ''response'' then base @ ''Res'' else base @ ''Req'', [])))"

section \<open>The analysis passes\<close>

text \<open>
  The three passes share the maps \<open>ignoredTypes\<close>, \<open>searchResponseInnerTypes\<close>,
  \<open>annotations\<close> and \<open>annotatedTypes\<close> of \<open>processFile\<close>. A \<open>map[string]bool\<close> that
  only ever stores \<open>true\<close> is a set of names; \<open>annotations\<close> is a map from the
  zero-based line index to the name. Each pass is \<open>ast.Inspect\<close> with the visitor of the
  source, which always answers true.
\<close>

definition ignoreMarker :: string where
  "ignoreMarker = ''@swagger:ignore''"

definition findIgnoredTypes_visit :: "astFile \<Rightarrow> string list \<Rightarrow> node \<Rightarrow> string set \<Rightarrow> bool \<times> string set" where
  "findIgnoredTypes_visit f lines n ignoredTypes =
     (case n of
        OtherNode _ \<Rightarrow> (True, ignoredTypes)
      | TypeSpec ts _ \<Rightarrow>
          if \<not> IsExported (ts_Name ts) then (True, ignoredTypes)
          else if (case ts_Doc ts of
                     None \<Rightarrow> False
                   | Some doc \<Rightarrow> list_ex (\<lambda>c. strings_Contains (c_Text c) ignoreMarker) doc)
            then (True, insert (ts_Name ts) ignoredTypes)
          else if ts_PosLine ts > 0 \<and> ts_PosLine ts \<le> int (length lines) \<and>
                  strings_Contains (lines ! nat (ts_PosLine ts - 1)) ignoreMarker
            then (True, insert (ts_Name ts) ignoredTypes)
          else if list_ex (\<lambda>cg. list_ex (\<lambda>c. strings_Contains (c_Text c) ignoreMarker \<and>
                                c_Line c \<ge> ts_PosLine ts - 1 \<and>
                                c_Line c \<le> ts_PosLine ts + 1) cg) (f_Comments f)
            then (True, insert (ts_Name ts) ignoredTypes)
          else (True, ignoredTypes))"

definition findIgnoredTypes :: "astFile \<Rightarrow> string list \<Rightarrow> string set \<Rightarrow> string set" where
  "findIgnoredTypes f lines ignoredTypes =
     ast_Inspect (findIgnoredTypes_visit f lines) (f_Root f) ignoredTypes"

definition findSearchResponseInnerTypes_visit :: "string set \<Rightarrow> node \<Rightarrow> string set \<Rightarrow> bool \<times> string set" where
  "findSearchResponseInnerTypes_visit ignoredTypes n searchResponseInnerTypes =
     (case n of
        OtherNode _ \<Rightarrow> (True, searchResponseInnerTypes)
      | TypeSpec ts _ \<Rightarrow>
          if \<not> IsExported (ts_Name ts) \<or> ts_Name ts \<in> ignoredTypes
          then (True, searchResponseInnerTypes)
          else (let info = extractTypeInfo ts
                in if (IsGeneric info \<or> IsAlias info) \<and> GenericBase info = ''SearchResponse''
                      \<and> InnerType info \<noteq> []
                   then (True, insert (InnerType info) searchResponseInnerTypes)
                   else (True, searchResponseInnerTypes)))"

definition findSearchResponseInnerTypes :: "astFile \<Rightarrow> string set \<Rightarrow> string set \<Rightarrow> string set" where
  "findSearchResponseInnerTypes f ignoredTypes searchResponseInnerTypes =
     ast_Inspect (findSearchResponseInnerTypes_visit ignoredTypes) (f_Root f) searchResponseInnerTypes"

type_synonym plan = "(int \<rightharpoonup> string) \<times> string set"
  \<comment> \<open>\<open>annotations\<close> and \<open>annotatedTypes\<close>\<close>

definition addAnnotations_inner :: "string set \<Rightarrow> string \<Rightarrow> string \<Rightarrow> node \<Rightarrow> plan \<Rightarrow> bool \<times> plan" where
  \<comment> \<open>the visitor of the nested \<open>ast.Inspect\<close>, which looks for the declaration of the inner type\<close>
  "addAnnotations_inner ignoredTypes innerType itemName inner p =
     (case inner of
        OtherNode _ \<Rightarrow> (True, p)
      | TypeSpec its _ \<Rightarrow>
          if ts_Name its = innerType \<and> ts_Name its \<notin> ignoredTypes
          then (let innerLine = ts_EndLine its - 1
                in (False, ((fst p)(innerLine \<mapsto> itemName), insert itemName (snd p))))
          else (True, p))"

definition addAnnotations_visit ::
  "astFile \<Rightarrow> string \<Rightarrow> string set \<Rightarrow> string set \<Rightarrow> node \<Rightarrow> plan \<Rightarrow> bool \<times> plan" where
  "addAnnotations_visit f variant ignoredTypes searchResponseInnerTypes n p =
     (case n of
        OtherNode _ \<Rightarrow> (True, p)
      | TypeSpec ts _ \<Rightarrow>
          if \<not> IsExported (ts_Name ts) \<or> ts_Name ts \<in> ignoredTypes then (True, p)
          else (let info = extractTypeInfo ts
                in if Name info = [] then (True, p)
                   else (case generateAnnotationNameWithContext info variant searchResponseInnerTypes of
                           (mainName, itemName) \<Rightarrow>
                             (let p1 = (if mainName \<noteq> [] \<and> mainName \<notin> snd p
                                        then (let endLine = ts_EndLine ts - 1
                                              in ((fst p)(endLine \<mapsto> mainName), insert mainName (snd p)))
                                        else p);
                                  p2 = (if itemName \<noteq> [] \<and> itemName \<notin> snd p1
                                        then (if InnerType info \<noteq> []
                                              then ast_Inspect (addAnnotations_inner ignoredTypes
                                                                  (InnerType info) itemName) (f_Root f) p1
                                              else p1)
                                        else p1)
                              in (True, p2)))))"

definition addAnnotations ::
  "astFile \<Rightarrow> string \<Rightarrow> string set \<Rightarrow> string set \<Rightarrow> plan \<Rightarrow> plan" where
  "addAnnotations f variant ignoredTypes searchResponseInnerTypes p =
     ast_Inspect (addAnnotations_visit f variant ignoredTypes searchResponseInnerTypes) (f_Root f) p"

section \<open>Files and the run\<close>

text \<open>
  The operating system is the state \<open>world\<close>: what \<open>os.ReadFile\<close> returns for a path now,
  and the error \<open>os.WriteFile\<close> fails with on a path, if it does. A successful write
  replaces the whole content. What does not change during a run is the \<open>env\<close>: the
  environment variables, the working directory, the calls \<open>filepath.Walk\<close> makes on a
  directory (path, \<open>IsDir\<close>, \<open>Name\<close> and error of each entry, in walk order) and the
  result of the parser on a source text.
\<close>

record world =
  w_ReadFile :: "path \<Rightarrow> error + string"
  w_WriteError :: "path \<Rightarrow> error option"

record walkCall =
  wc_path :: path
  wc_IsDir :: bool
  wc_Name :: string
  wc_err :: "error option"

record env =
  e_Getenv :: "string \<Rightarrow> string"
  e_Getwd :: "error + path"
  e_Walk :: "path \<Rightarrow> walkCall list"
  e_ParseFile :: "path \<Rightarrow> string \<Rightarrow> error + astFile"

definition basePath :: path where
  "basePath = [''internal'', ''delivery'', ''http'']"

definition projectEnvVar :: string where
  "projectEnvVar = ''GITHUB_REPOSITORY''"

definition projectPrefixConst :: string where
  \<comment> \<open>the constant \<open>projectPrefix\<close>, which the parameters of the same name shadow\<close>
  "projectPrefixConst = ''omp-''"

definition sourceDirs :: "string list" where
  "sourceDirs = [''request'', ''response'']"

definition os_WriteFile :: "path \<Rightarrow> string \<Rightarrow> world \<Rightarrow> error option \<times> world" where
  "os_WriteFile filename data w =
     (case w_WriteError w filename of
        Some err \<Rightarrow> (Some err, w)
      | None \<Rightarrow> (None, w\<lparr>w_ReadFile := (w_ReadFile w)(filename := Inr data)\<rparr>))"

definition writeFile :: "path \<Rightarrow> string list \<Rightarrow> world \<Rightarrow> error option \<times> world" where
  \<comment> \<open>writing to a \<open>bytes.Buffer\<close> returns no error, so only \<open>os.WriteFile\<close> can fail\<close>
  "writeFile filename lines w =
     (case os_WriteFile filename (bytes_Join lines) w of
        (Some err, w') \<Rightarrow> (Some (WritingToFile err), w')
      | (None, w') \<Rightarrow> (None, w'))"

definition multiPass :: "astFile \<Rightarrow> string list \<Rightarrow> string \<Rightarrow> (int \<rightharpoonup> string)" where
  \<comment> \<open>the block \<open>Multi-pass processing\<close> of \<open>processFile\<close>: the three passes over fresh
      maps, giving \<open>annotations\<close>\<close>
  "multiPass f lines variant =
     (let ignoredTypes = findIgnoredTypes f lines {};
          searchResponseInnerTypes = findSearchResponseInnerTypes f ignoredTypes {}
      in fst (addAnnotations f variant ignoredTypes searchResponseInnerTypes (Map.empty, {})))"

definition processFile ::
  "env \<Rightarrow> path \<Rightarrow> string \<Rightarrow> string \<Rightarrow> world \<times> processingResult \<Rightarrow>
   error option \<times> world \<times> processingResult" where
  "processFile e filename pre variant st =
     (case st of (w, result) \<Rightarrow>
        (case w_ReadFile w filename of
           Inl err \<Rightarrow> (Some (ReadingFile err), w, result)
         | Inr src \<Rightarrow>
             (case e_ParseFile e filename src of
                Inl err \<Rightarrow> (Some (ParsingFile err), w, result)
              | Inr f \<Rightarrow>
                  (let lines = bytes_Split src;
                       annotations = multiPass f lines variant
                   in (case applyAnnotations lines annotations pre result of
                         (lines', result', annotationsApplied) \<Rightarrow>
                           if annotationsApplied > 0 then
                             (case writeFile filename lines' w of
                                (Some err, w') \<Rightarrow> (Some (WritingFile err), w', result')
                              | (None, w') \<Rightarrow> (None, w', result'))
                           else (None, w, result'))))))"

text \<open>
  Paths are lists of segments, so \<open>filepath.Join\<close> is \<open>@\<close> and
  \<open>strings.Split(rel, string(filepath.Separator))\<close> is the list itself.
  \<open>filepath.Rel\<close> is modelled on absolute clean paths (the working directory and what
  \<open>filepath.Walk\<close> passes), where it drops the common prefix, climbs out of what is left
  of the base with \<open>..\<close> and never fails.
\<close>

fun filepath_Rel :: "path \<Rightarrow> path \<Rightarrow> error + path" where
  "filepath_Rel [] [] = Inr [''.'']"
| "filepath_Rel [] (t # ts) = Inr (t # ts)"
| "filepath_Rel (b # bs) [] = Inr (replicate (length (b # bs)) ''..'')"
| "filepath_Rel (b # bs) (t # ts) =
     (if b = t then filepath_Rel bs ts
      else Inr (replicate (length (b # bs)) ''..'' @ t # ts))"

definition filepath_Base :: "path \<Rightarrow> string" where
  "filepath_Base p = (if p = [] then ''/'' else last p)"

fun strings_Split :: "string \<Rightarrow> char \<Rightarrow> string list" where
  \<comment> \<open>\<open>strings.Split\<close> with a separator of one byte\<close>
  "strings_Split [] sep = [[]]"
| "strings_Split (c # cs) sep =
     (if c = sep then [] # strings_Split cs sep
      else (case strings_Split cs sep of
              l # ls \<Rightarrow> (c # l) # ls
            | [] \<Rightarrow> [[c]]))"

definition getProjectName :: "string \<Rightarrow> string" where
  "getProjectName input = strings_TrimPrefix input projectPrefixConst"

definition getProjectPrefix :: "env \<Rightarrow> string" where
  "getProjectPrefix e =
     (let repo = e_Getenv e projectEnvVar;
          parts = strings_Split repo (CHR ''/'')
      in if repo \<noteq> [] \<and> length parts = 2 then getProjectName (parts ! 1)
         else (case e_Getwd e of
                 Inr cwd \<Rightarrow> getProjectName (filepath_Base cwd)
               | Inl err \<Rightarrow> ''project''))"

definition processSourceFile ::
  "env \<Rightarrow> path \<Rightarrow> path \<Rightarrow> string \<Rightarrow> string \<Rightarrow> world \<times> processingResult \<Rightarrow>
   error option \<times> world \<times> processingResult" where
  "processSourceFile e root p projectPrefix dir st =
     (case st of (w, result) \<Rightarrow>
        (case filepath_Rel (root @ basePath) p of
           Inl err \<Rightarrow> (Some (ResolvingRelativePath err), w, result)
         | Inr parts \<Rightarrow>
             if length parts < 2 then (None, w, result)
             else (let version = parts ! 1;
                       pre = projectPrefix @ ''.'' @ version @ ''.''
                   in processFile e p pre dir (w, AddFile result))))"

text \<open>
  \<open>filepath.Walk\<close> calls the function on each entry in turn and stops with the first
  error the function returns. The function of \<open>processSourceDirectories\<close> returns either
  the error it was given or \<open>nil\<close>, never \<open>SkipDir\<close>.
\<close>

fun filepath_Walk ::
  "walkCall list \<Rightarrow> (walkCall \<Rightarrow> 's \<Rightarrow> error option \<times> 's) \<Rightarrow> 's \<Rightarrow> error option \<times> 's" where
  "filepath_Walk [] fn s = (None, s)"
| "filepath_Walk (c # cs) fn s =
     (case fn c s of
        (Some err, s') \<Rightarrow> (Some err, s')
      | (None, s') \<Rightarrow> filepath_Walk cs fn s')"

definition walkFn ::
  "env \<Rightarrow> path \<Rightarrow> string \<Rightarrow> string \<Rightarrow> walkCall \<Rightarrow> world \<times> processingResult \<Rightarrow>
   error option \<times> world \<times> processingResult" where
  \<comment> \<open>the function literal passed to \<open>filepath.Walk\<close>\<close>
  "walkFn e root projectPrefix dir c st =
     (case wc_err c of
        Some err \<Rightarrow> (Some err, st)
      | None \<Rightarrow>
          if wc_IsDir c \<or> \<not> strings_HasSuffix (wc_Name c) ''.go'' then (None, st)
          else (case processSourceFile e root (wc_path c) projectPrefix dir st of
                  (Some err, w', result') \<Rightarrow>
                    (None, w', AddError (ProcessingPath (wc_path c) err) result')
                | (None, w', result') \<Rightarrow> (None, w', result')))"

definition processSourceDirectories_body ::
  "env \<Rightarrow> path \<Rightarrow> string \<Rightarrow> string \<Rightarrow> world \<times> processingResult \<Rightarrow> world \<times> processingResult" where
  \<comment> \<open>one iteration of the loop over \<open>sourceDirs\<close>\<close>
  "processSourceDirectories_body e root projectPrefix dir st =
     (let fullPath = root @ basePath @ [dir]
      in (case filepath_Walk (e_Walk e fullPath) (walkFn e root projectPrefix dir) st of
            (Some err, w', result') \<Rightarrow> (w', AddError (WalkingDirectory fullPath err) result')
          | (None, w', result') \<Rightarrow> (w', result')))"

definition processSourceDirectories ::
  "env \<Rightarrow> path \<Rightarrow> string \<Rightarrow> world \<Rightarrow> world \<times> processingResult" where
  "processSourceDirectories e root projectPrefix w =
     fold (processSourceDirectories_body e root projectPrefix) sourceDirs (w, emptyResult)"

definition Run :: "env \<Rightarrow> world \<Rightarrow> error option \<times> world" where
  \<comment> \<open>the summary line printed before the verdict is not modelled\<close>
  "Run e w =
     (let projectPrefix = getProjectPrefix e
      in (case e_Getwd e of
            Inl err \<Rightarrow> (Some (GettingWorkingDirectory err), w)
          | Inr root \<Rightarrow>
              (case processSourceDirectories e root projectPrefix w of
                 (w', result) \<Rightarrow>
                   if HasErrors result
                   then (Some (EncounteredErrors (length (Errors result))), w')
                   else (None, w'))))"

section \<open>Notions used to state the properties\<close>

text \<open>
  The definitions below are not functions of the source. They name what the theorems talk
  about: the bytes that occur in no white-space character, the line \<open>applyAnnotations\<close>
  leaves for one planned name, the declarations of a file in the order \<open>ast.Inspect\<close>
  meets them, the three checks of \<open>findIgnoredTypes\<close> taken together, the calls of a walk
  that are reached, and the example files on which the theorems are evaluated.
\<close>

subsection \<open>Bytes, lines and declarations\<close>

definition solid :: "char \<Rightarrow> bool" where
  \<comment> \<open>a byte that is part of no white-space character: trimming stops at it\<close>
  "solid c = (\<forall>w \<in> set whiteSpace. c \<notin> set w)"

definition patchLine :: "string \<Rightarrow> string \<Rightarrow> string \<Rightarrow> string" where
  \<comment> \<open>what one iteration of \<open>applyAnnotations\<close> makes of a planned line\<close>
  "patchLine pre name l =
     (if strings_Contains (strings_TrimSpace l) (expectedDirective pre name) then l
      else (case nameRegex_FindStringIndex (strings_TrimSpace l) of
              Some loc0 \<Rightarrow> take loc0 l @ '' // '' @ expectedDirective pre name
            | None \<Rightarrow> l @ '' // '' @ expectedDirective pre name))"

fun preorder :: "node \<Rightarrow> node list" where
  \<comment> \<open>the nodes of a tree, parents before children\<close>
  "preorder (TypeSpec ts ns) = TypeSpec ts ns # concat (map preorder ns)"
| "preorder (OtherNode ns) = OtherNode ns # concat (map preorder ns)"

fun typeSpecsOf :: "node list \<Rightarrow> typeSpec list" where
  "typeSpecsOf [] = []"
| "typeSpecsOf (TypeSpec ts ns # rest) = ts # typeSpecsOf rest"
| "typeSpecsOf (OtherNode ns # rest) = typeSpecsOf rest"

definition declarations :: "astFile \<Rightarrow> typeSpec list" where
  \<comment> \<open>every type declaration of the file, in the order \<open>ast.Inspect\<close> meets them\<close>
  "declarations f = typeSpecsOf (preorder (f_Root f))"


definition isSearchWrapper :: "typeInfo \<Rightarrow> bool" where
  \<comment> \<open>the test both \<open>findSearchResponseInnerTypes\<close> and the name generator make\<close>
  "isSearchWrapper info =
     ((IsGeneric info \<or> IsAlias info) \<and> GenericBase info = ''SearchResponse'')"

definition planAll :: "(int \<Rightarrow> string \<Rightarrow> bool) \<Rightarrow> plan \<Rightarrow> bool" where
  \<comment> \<open>every planned line and name satisfy \<open>Q\<close>\<close>
  "planAll Q p = (\<forall>L n. fst p L = Some n \<longrightarrow> Q L n)"

subsection \<open>Example files\<close>

text \<open>
  Each example gives the lines of a Go file and the syntax tree \<open>go/parser\<close> builds for
  them: the type declarations with the lines of their name and of their end, and the
  comments with their lines. A declaration that is not in a parenthesised group has no
  \<open>Doc\<close> of its own (the comment above it belongs to the enclosing \<open>GenDecl\<close>), so
  \<open>ts_Doc\<close> is \<open>None\<close> throughout.
\<close>

definition stale_path :: path where
  "stale_path = [''repo'', ''internal'', ''delivery'', ''http'', ''response'', ''v1'', ''a.go'']"

definition stale_lines :: "string list" where
  "stale_lines =
     [''package response'',
      '''',
      ''type A struct {'',
      CHR 0x09 # ''X int'',
      ''} // @name old.A @swagger:ignore'',
      ''type B struct{}'',
      '''']"

definition stale_lines2 :: "string list" where
  "stale_lines2 =
     [''package response'',
      '''',
      ''type A struct {'',
      CHR 0x09 # ''X int'',
      ''}  // @name p.v1.ARes'',
      ''type B struct{}'',
      '''']"

definition stale_lines3 :: "string list" where
  "stale_lines3 =
     [''package response'',
      '''',
      ''type A struct {'',
      CHR 0x09 # ''X int'',
      ''}  // @name p.v1.ARes'',
      ''type B struct{} // @name p.v1.BRes'',
      '''']"

definition stale_decls :: "node list" where
  "stale_decls =
     [OtherNode [TypeSpec \<lparr>ts_Doc = None, ts_Name = ''A'', ts_Type = StructType,
                            ts_PosLine = 3, ts_EndLine = 5\<rparr> []],
      OtherNode [TypeSpec \<lparr>ts_Doc = None, ts_Name = ''B'', ts_Type = StructType,
                            ts_PosLine = 6, ts_EndLine = 6\<rparr> []]]"

definition stale_ast :: astFile where
  "stale_ast = \<lparr>f_Root = OtherNode stale_decls,
              f_Comments = [[\<lparr>c_Line = 5, c_Text = ''// @name old.A @swagger:ignore''\<rparr>]]\<rparr>"

definition stale_ast2 :: astFile where
  "stale_ast2 = \<lparr>f_Root = OtherNode stale_decls,
               f_Comments = [[\<lparr>c_Line = 5, c_Text = ''// @name p.v1.ARes''\<rparr>]]\<rparr>"

definition stale_env :: env where
  "stale_env = \<lparr>e_Getenv = (\<lambda>v. []), e_Getwd = Inr [''repo''], e_Walk = (\<lambda>p. []),
              e_ParseFile = (\<lambda>p src. if src = bytes_Join stale_lines then Inr stale_ast
                                      else if src = bytes_Join stale_lines2 then Inr stale_ast2
                                      else Inl (External ''syntax error''))\<rparr>"

definition stale_world :: world where
  "stale_world = \<lparr>w_ReadFile = (\<lambda>p. if p = stale_path then Inr (bytes_Join stale_lines)
                                   else Inl (External ''no such file'')),
                w_WriteError = (\<lambda>p. None)\<rparr>"

definition stale_run1 :: "error option \<times> world \<times> processingResult" where
  "stale_run1 = processFile stale_env stale_path ''p.v1.'' ''response'' (stale_world, emptyResult)"

definition stale_run2 :: "error option \<times> world \<times> processingResult" where
  "stale_run2 = processFile stale_env stale_path ''p.v1.'' ''response'' (snd stale_run1)"


definition hidden_widget :: typeSpec where
  "hidden_widget = \<lparr>ts_Doc = None, ts_Name = ''WidgetResponse'', ts_Type = StructType,
                  ts_PosLine = 4, ts_EndLine = 6\<rparr>"

definition hidden_list :: typeSpec where
  "hidden_list = \<lparr>ts_Doc = None, ts_Name = ''WidgetList'',
                ts_Type = IndexExpr (Ident ''SearchResponse'') (Ident ''WidgetResponse''),
                ts_PosLine = 8, ts_EndLine = 8\<rparr>"

definition hidden_ast :: astFile where
  "hidden_ast = \<lparr>f_Root = OtherNode [OtherNode [TypeSpec hidden_widget []],
                                   OtherNode [TypeSpec hidden_list []]],
              f_Comments = [[\<lparr>c_Line = 3, c_Text = ''// @swagger:ignore''\<rparr>]]\<rparr>"

definition pair_lines :: "string list" where
  "pair_lines =
     [''package response'',
      '''',
      ''type WidgetList SearchResponse[WidgetResponse]'',
      '''',
      ''type WidgetResponse struct {'',
      CHR 0x09 # ''ID int'',
      ''}'',
      '''']"

definition pair_list :: typeSpec where
  "pair_list = \<lparr>ts_Doc = None, ts_Name = ''WidgetList'',
                ts_Type = IndexExpr (Ident ''SearchResponse'') (Ident ''WidgetResponse''),
                ts_PosLine = 3, ts_EndLine = 3\<rparr>"

definition pair_widget :: typeSpec where
  "pair_widget = \<lparr>ts_Doc = None, ts_Name = ''WidgetResponse'', ts_Type = StructType,
                  ts_PosLine = 5, ts_EndLine = 7\<rparr>"

definition pair_ast :: astFile where
  "pair_ast = \<lparr>f_Root = OtherNode [OtherNode [TypeSpec pair_list []],
                                   OtherNode [TypeSpec pair_widget []]],
              f_Comments = []\<rparr>"

definition declShape :: "typeSpec \<Rightarrow> string \<times> expr" where
  \<comment> \<open>a declaration without its position: what stays the same when declarations are
      reordered\<close>
  "declShape ts = (ts_Name ts, ts_Type ts)"

definition flat_path :: path where
  "flat_path = [''repo''] @ basePath @ [''response'', ''widget.go'']"

definition flat_lines :: "string list" where
  "flat_lines = [''package response'', '''', ''type Foo struct{}'', '''']"

definition flat_ast :: astFile where
  "flat_ast = \<lparr>f_Root = OtherNode [OtherNode [TypeSpec \<lparr>ts_Doc = None, ts_Name = ''Foo'',
                   ts_Type = StructType, ts_PosLine = 3, ts_EndLine = 3\<rparr> []]],
               f_Comments = []\<rparr>"

definition flat_env :: env where
  "flat_env = \<lparr>e_Getenv = (\<lambda>v. []), e_Getwd = Inr [''repo''], e_Walk = (\<lambda>p. []),
               e_ParseFile = (\<lambda>p src. if src = bytes_Join flat_lines then Inr flat_ast
                                       else Inl (External ''syntax error''))\<rparr>"

definition flat_world :: world where
  "flat_world = \<lparr>w_ReadFile = (\<lambda>p. if p = flat_path then Inr (bytes_Join flat_lines)
                                    else Inl (External ''no such file'')),
                 w_WriteError = (\<lambda>p. None)\<rparr>"

definition eligible :: "path \<Rightarrow> walkCall \<Rightarrow> bool" where
  \<comment> \<open>a \<open>.go\<close> file at least two segments below the base directory\<close>
  "eligible root c =
     (\<not> wc_IsDir c \<and> strings_HasSuffix (wc_Name c) ''.go'' \<and>
      (case filepath_Rel (root @ basePath) (wc_path c) of
         Inr parts \<Rightarrow> 2 \<le> length parts
       | Inl err \<Rightarrow> False))"

definition reached :: "walkCall list \<Rightarrow> walkCall list" where
  \<comment> \<open>the calls before the first traversal error, where the walk stops\<close>
  "reached cs = takeWhile (\<lambda>c. wc_err c = None) cs"

definition tree_request :: path where
  "tree_request = [''repo''] @ basePath @ [''request'']"

definition tree_calls :: "walkCall list" where
  "tree_calls =
     [\<lparr>wc_path = tree_request, wc_IsDir = True, wc_Name = ''request'', wc_err = None\<rparr>,
      \<lparr>wc_path = tree_request @ [''v1''], wc_IsDir = True, wc_Name = ''v1'', wc_err = None\<rparr>,
      \<lparr>wc_path = tree_request @ [''v1'', ''bad.go''], wc_IsDir = False, wc_Name = ''bad.go'',
        wc_err = None\<rparr>,
      \<lparr>wc_path = tree_request @ [''v1'', ''broken.go''], wc_IsDir = False, wc_Name = ''broken.go'',
        wc_err = None\<rparr>,
      \<lparr>wc_path = tree_request @ [''v1'', ''foo.go''], wc_IsDir = False, wc_Name = ''foo.go'',
        wc_err = None\<rparr>,
      \<lparr>wc_path = tree_request @ [''v1'', ''locked.go''], wc_IsDir = False, wc_Name = ''locked.go'',
        wc_err = None\<rparr>]"

definition tree_env :: env where
  "tree_env = \<lparr>e_Getenv = (\<lambda>v. if v = projectEnvVar then ''acme/omp-rental'' else []),
              e_Getwd = Inr [''repo''],
              e_Walk = (\<lambda>p. if p = tree_request then tree_calls else []),
              e_ParseFile = (\<lambda>p src. if src = bytes_Join flat_lines then Inr flat_ast
                                      else Inl (External ''syntax error''))\<rparr>"

definition tree_world :: world where
  "tree_world = \<lparr>w_ReadFile = (\<lambda>p. if p = tree_request @ [''v1'', ''foo.go'']
                                      \<or> p = tree_request @ [''v1'', ''locked.go'']
                                   then Inr (bytes_Join flat_lines)
                                   else if p = tree_request @ [''v1'', ''broken.go'']
                                   then Inr ''package''
                                   else Inl (External ''permission denied'')),
                w_WriteError = (\<lambda>p. if p = tree_request @ [''v1'', ''locked.go'']
                                     then Some (External ''read-only file system'')
                                     else None)\<rparr>"

definition settled_ast :: astFile where
  "settled_ast = \<lparr>f_Root = OtherNode stale_decls,
              f_Comments = [[\<lparr>c_Line = 5, c_Text = ''// @name p.v1.ARes''\<rparr>],
                            [\<lparr>c_Line = 6, c_Text = ''// @name p.v1.BRes''\<rparr>]]\<rparr>"

definition settled_env :: env where
  "settled_env = \<lparr>e_Getenv = (\<lambda>v. []), e_Getwd = Inr [''repo''], e_Walk = (\<lambda>p. []),
              e_ParseFile = (\<lambda>p src. if src = bytes_Join stale_lines3 then Inr settled_ast
                                      else Inl (External ''syntax error''))\<rparr>"

definition settled_world :: world where
  "settled_world = \<lparr>w_ReadFile = (\<lambda>p. if p = stale_path then Inr (bytes_Join stale_lines3)
                                   else Inl (External ''no such file'')),
                w_WriteError = (\<lambda>p. None)\<rparr>"

definition rerun_lines2 :: "string list" where
  "rerun_lines2 = [''package response'', '''',
                  ''type Foo struct{} // @name rental.v1.FooRes'', '''']"

definition rerun_ast2 :: astFile where
  "rerun_ast2 = \<lparr>f_Root = f_Root flat_ast,
                f_Comments = [[\<lparr>c_Line = 3, c_Text = ''// @name rental.v1.FooRes''\<rparr>]]\<rparr>"

definition rerun_env :: env where
  "rerun_env = \<lparr>e_Getenv = (\<lambda>v. []), e_Getwd = Inr [''repo''], e_Walk = (\<lambda>p. []),
               e_ParseFile = (\<lambda>p src. if src = bytes_Join flat_lines then Inr flat_ast
                                       else if src = bytes_Join rerun_lines2 then Inr rerun_ast2
                                       else Inl (External ''syntax error''))\<rparr>"

definition rerun_first :: "error option \<times> world \<times> processingResult" where
  "rerun_first = processFile rerun_env flat_path ''rental.v1.'' ''response'' (flat_world, emptyResult)"

subsection \<open>Looking a declaration up by name\<close>

definition namedNode :: "string \<Rightarrow> node \<Rightarrow> bool" where
  \<comment> \<open>a type declaration with the given name\<close>
  "namedNode T n = (case n of TypeSpec ts _ \<Rightarrow> ts_Name ts = T | OtherNode _ \<Rightarrow> False)"

subsection \<open>Further example declarations and files\<close>

text \<open>
  Declarations whose names end in both suffixes; the two orders of a wrapper and its item
  without any comment (\<open>pair_lines\<close> and \<open>swap_lines\<close>); two orders of the same three
  declarations above a marked one (\<open>orderA_lines\<close>, \<open>orderB_lines\<close>); a line on which
  one declaration ends and a marked one stands (\<open>shared_lines\<close>); and the example of the
  README, with the marker after the closing brace (\<open>readme_lines\<close>).
\<close>

definition both_list :: typeSpec where
  "both_list = \<lparr>ts_Doc = None, ts_Name = ''WidgetList'',
                 ts_Type = IndexExpr (Ident ''SearchResponse'') (Ident ''WidgetRequestResponse''),
                 ts_PosLine = 3, ts_EndLine = 3\<rparr>"

definition both_plain :: typeSpec where
  "both_plain = \<lparr>ts_Doc = None, ts_Name = ''FooRequestResponse'', ts_Type = StructType,
                  ts_PosLine = 3, ts_EndLine = 5\<rparr>"

definition rental_list :: typeSpec where
  "rental_list = \<lparr>ts_Doc = None, ts_Name = ''AdminRentalListResponse'', ts_Type = StructType,
                   ts_PosLine = 3, ts_EndLine = 5\<rparr>"

definition request_page :: typeSpec where
  "request_page = \<lparr>ts_Doc = None, ts_Name = ''WidgetPage'',
                    ts_Type = IndexExpr (Ident ''SearchResponse'') (Ident ''WidgetRequest''),
                    ts_PosLine = 3, ts_EndLine = 3\<rparr>"

definition swap_lines :: "string list" where
  "swap_lines =
     [''package response'',
      '''',
      ''type WidgetResponse struct {'',
      CHR 0x09 # ''ID int'',
      ''}'',
      '''',
      ''type WidgetList SearchResponse[WidgetResponse]'',
      '''']"

definition swap_ast :: astFile where
  "swap_ast = \<lparr>f_Root = OtherNode
                 [OtherNode [TypeSpec \<lparr>ts_Doc = None, ts_Name = ''WidgetResponse'',
                    ts_Type = StructType, ts_PosLine = 3, ts_EndLine = 5\<rparr> []],
                  OtherNode [TypeSpec \<lparr>ts_Doc = None, ts_Name = ''WidgetList'',
                    ts_Type = IndexExpr (Ident ''SearchResponse'') (Ident ''WidgetResponse''),
                    ts_PosLine = 7, ts_EndLine = 7\<rparr> []]],
               f_Comments = []\<rparr>"

definition orderA_lines :: "string list" where
  "orderA_lines =
     [''package response'',
      '''',
      ''type List SearchResponse[Item]'',
      ''type Item struct{}'',
      ''type Helper struct{} // @swagger:ignore'',
      '''']"

definition orderA_ast :: astFile where
  "orderA_ast = \<lparr>f_Root = OtherNode
                   [OtherNode [TypeSpec \<lparr>ts_Doc = None, ts_Name = ''List'',
                      ts_Type = IndexExpr (Ident ''SearchResponse'') (Ident ''Item''),
                      ts_PosLine = 3, ts_EndLine = 3\<rparr> []],
                    OtherNode [TypeSpec \<lparr>ts_Doc = None, ts_Name = ''Item'',
                      ts_Type = StructType, ts_PosLine = 4, ts_EndLine = 4\<rparr> []],
                    OtherNode [TypeSpec \<lparr>ts_Doc = None, ts_Name = ''Helper'',
                      ts_Type = StructType, ts_PosLine = 5, ts_EndLine = 5\<rparr> []]],
                 f_Comments = [[\<lparr>c_Line = 5, c_Text = ''// @swagger:ignore''\<rparr>]]\<rparr>"

definition orderB_lines :: "string list" where
  "orderB_lines =
     [''package response'',
      '''',
      ''type Item struct{}'',
      ''type List SearchResponse[Item]'',
      ''type Helper struct{} // @swagger:ignore'',
      '''']"

definition orderB_ast :: astFile where
  "orderB_ast = \<lparr>f_Root = OtherNode
                   [OtherNode [TypeSpec \<lparr>ts_Doc = None, ts_Name = ''Item'',
                      ts_Type = StructType, ts_PosLine = 3, ts_EndLine = 3\<rparr> []],
                    OtherNode [TypeSpec \<lparr>ts_Doc = None, ts_Name = ''List'',
                      ts_Type = IndexExpr (Ident ''SearchResponse'') (Ident ''Item''),
                      ts_PosLine = 4, ts_EndLine = 4\<rparr> []],
                    OtherNode [TypeSpec \<lparr>ts_Doc = None, ts_Name = ''Helper'',
                      ts_Type = StructType, ts_PosLine = 5, ts_EndLine = 5\<rparr> []]],
                 f_Comments = [[\<lparr>c_Line = 5, c_Text = ''// @swagger:ignore''\<rparr>]]\<rparr>"




definition readme_lines :: "string list" where
  "readme_lines =
     [''package response'',
      '''',
      ''type VehiclePricingSearchNamer struct {'',
      CHR 0x09 # ''ns schema.Namer'',
      ''} // @swagger:ignore'',
      '''']"

definition readme_ast :: astFile where
  "readme_ast = \<lparr>f_Root = OtherNode
                   [OtherNode [TypeSpec \<lparr>ts_Doc = None, ts_Name = ''VehiclePricingSearchNamer'',
                      ts_Type = StructType, ts_PosLine = 3, ts_EndLine = 5\<rparr> []]],
                 f_Comments = [[\<lparr>c_Line = 5, c_Text = ''// @swagger:ignore''\<rparr>]]\<rparr>"

section \<open>White space and the expected directive\<close>

text \<open>
  Trimming stops at a byte that belongs to no white-space character, so a line that holds
  the expected directive still holds it after \<open>strings.TrimSpace\<close>, provided the name
  ends in such a byte. Every generated name ends in \<open>s\<close> or \<open>q\<close>.
\<close>

lemma prefix_before_solid:
  assumes "prefix w (A @ c # R)" and "c \<notin> set w"
  shows "prefix w A"
proof -
  from assms(1) consider "prefix w A" | us where "w = A @ us" "prefix us (c # R)"
    by (auto simp: prefix_append)
  then show ?thesis
  proof cases
    case 1 then show ?thesis .
  next
    case 2
    with assms(2) have "us = []" by (cases us) auto
    with 2 show ?thesis by simp
  qed
qed

lemma suffix_after_solid:
  assumes "suffix w (L @ c # B)" and "c \<notin> set w"
  shows "suffix w B"
proof -
  have "prefix (rev w) (rev B @ c # rev L)"
    using assms(1) by (simp add: suffix_to_prefix)
  moreover have "c \<notin> set (rev w)" using assms(2) by simp
  ultimately have "prefix (rev w) (rev B)" by (rule prefix_before_solid)
  then show ?thesis by (simp add: suffix_to_prefix)
qed

lemma trimLeft_solid:
  assumes "solid c"
  shows "\<exists>A'. trimLeft (A @ c # R) = A' @ c # R"
proof (induction A rule: length_induct)
  case (1 A)
  show ?case
  proof (cases "leadingSpace (A @ c # R)")
    case None
    then have "trimLeft (A @ c # R) = A @ c # R"
      by (subst trimLeft.simps) simp
    then show ?thesis by blast
  next
    case (Some w)
    then have w: "w \<in> set whiteSpace" "prefix w (A @ c # R)" "w \<noteq> []"
      using leadingSpace_Some by blast+
    with assms have "c \<notin> set w" by (simp add: solid_def)
    with w(2) have "prefix w A" by (rule prefix_before_solid)
    then obtain A2 where A: "A = w @ A2" by (auto simp: prefix_def)
    with w(3) have "length A2 < length A" by simp
    with 1 obtain A' where "trimLeft (A2 @ c # R) = A' @ c # R" by blast
    moreover have "trimLeft (A @ c # R) = trimLeft (A2 @ c # R)"
      using Some A by (subst trimLeft.simps) simp
    ultimately show ?thesis by auto
  qed
qed

lemma trimRight_solid:
  assumes "solid c"
  shows "\<exists>B'. trimRight (L @ c # B) = L @ c # B'"
proof (induction B rule: length_induct)
  case (1 B)
  show ?case
  proof (cases "trailingSpace (L @ c # B)")
    case None
    then have "trimRight (L @ c # B) = L @ c # B"
      by (subst trimRight.simps) simp
    then show ?thesis by blast
  next
    case (Some w)
    then have w: "w \<in> set whiteSpace" "suffix w (L @ c # B)" "w \<noteq> []"
      using trailingSpace_Some by blast+
    with assms have "c \<notin> set w" by (simp add: solid_def)
    with w(2) have "suffix w B" by (rule suffix_after_solid)
    then obtain B2 where B: "B = B2 @ w" by (auto simp: suffix_def)
    with w(3) have "length B2 < length B" by simp
    with 1 obtain B' where "trimRight (L @ c # B2) = L @ c # B'" by blast
    moreover have "trimRight (L @ c # B) = trimRight (L @ c # B2)"
      using Some B by (subst trimRight.simps) simp
    ultimately show ?thesis by auto
  qed
qed

lemma TrimSpace_between_solid:
  assumes "solid c1" and "solid c2"
  shows "\<exists>A' B'. strings_TrimSpace (A @ c1 # M @ c2 # B) = A' @ c1 # M @ c2 # B'"
proof -
  obtain A' where l: "trimLeft (A @ c1 # M @ c2 # B) = A' @ c1 # M @ c2 # B"
    using trimLeft_solid [OF assms(1)] by blast
  obtain B' where "trimRight ((A' @ c1 # M) @ c2 # B) = (A' @ c1 # M) @ c2 # B'"
    using trimRight_solid [OF assms(2)] by blast
  with l show ?thesis by (auto simp: strings_TrimSpace_def)
qed

lemma solid_at: "solid (CHR ''@'')"
  by (simp add: solid_def whiteSpace_def)

lemma TrimSpace_keeps_directive:
  assumes "name \<noteq> []" and "solid (last name)"
  shows "strings_Contains (strings_TrimSpace (X @ expectedDirective pre name @ Y))
           (expectedDirective pre name)"
proof -
  obtain N c where name: "name = N @ [c]" and c: "solid c"
    using assms by (metis append_butlast_last_id)
  have e: "expectedDirective pre name = CHR ''@'' # (''name '' @ pre @ N) @ [c]"
    by (simp add: expectedDirective_def name)
  obtain A' B' where
    "strings_TrimSpace (X @ CHR ''@'' # (''name '' @ pre @ N) @ c # Y)
       = A' @ CHR ''@'' # (''name '' @ pre @ N) @ c # B'"
    using TrimSpace_between_solid [OF solid_at c] by blast
  then have "strings_TrimSpace (X @ expectedDirective pre name @ Y)
       = A' @ expectedDirective pre name @ B'"
    by (simp add: e)
  then show ?thesis by (simp add: strings_Contains_def)
qed

section \<open>The line patcher, one line at a time\<close>

lemma body_length:
  "length (fst (applyAnnotations_body ann pre j st)) = length (fst st)"
  by (cases st) (simp add: applyAnnotations_body_def Let_def split: option.split)

lemma body_other:
  "j \<noteq> i \<Longrightarrow> fst (applyAnnotations_body ann pre j st) ! i = fst st ! i"
  by (cases st) (simp add: applyAnnotations_body_def Let_def split: option.split)

lemma body_none:
  "ann (int i) = None \<Longrightarrow> applyAnnotations_body ann pre i st = st"
  by (cases st) (simp add: applyAnnotations_body_def)

lemma body_correct:
  "ann (int i) = Some name \<Longrightarrow>
   strings_Contains (strings_TrimSpace (fst st ! i)) (expectedDirective pre name) \<Longrightarrow>
   applyAnnotations_body ann pre i st = st"
  by (cases st) (simp add: applyAnnotations_body_def)

lemma body_at:
  "ann (int i) = Some name \<Longrightarrow> i < length (fst st) \<Longrightarrow>
   fst (applyAnnotations_body ann pre i st) ! i = patchLine pre name (fst st ! i)"
  by (cases st) (simp add: applyAnnotations_body_def patchLine_def Let_def split: option.split)

lemma fold_body_length:
  "length (fst (fold (applyAnnotations_body ann pre) js st)) = length (fst st)"
  by (induction js arbitrary: st) (simp_all add: body_length)

lemma fold_body_notin:
  "i \<notin> set js \<Longrightarrow> fst (fold (applyAnnotations_body ann pre) js st) ! i = fst st ! i"
  by (induction js arbitrary: st) (simp_all add: body_other)

lemma fold_body_none:
  "ann (int i) = None \<Longrightarrow> fst (fold (applyAnnotations_body ann pre) js st) ! i = fst st ! i"
proof (induction js arbitrary: st)
  case Nil
  show ?case by simp
next
  case (Cons j js)
  have "fst (applyAnnotations_body ann pre j st) ! i = fst st ! i"
    using Cons.prems by (cases "j = i") (simp_all add: body_none body_other)
  with Cons show ?case by simp
qed

lemma fold_body_at:
  "distinct js \<Longrightarrow> i \<in> set js \<Longrightarrow> i < length (fst st) \<Longrightarrow> ann (int i) = Some name \<Longrightarrow>
   fst (fold (applyAnnotations_body ann pre) js st) ! i = patchLine pre name (fst st ! i)"
proof (induction js arbitrary: st)
  case Nil
  then show ?case by simp
next
  case (Cons j js)
  show ?case
  proof (cases "j = i")
    case True
    with Cons.prems have "i \<notin> set js" by simp
    then show ?thesis
      using True Cons.prems by (simp add: fold_body_notin body_at)
  next
    case False
    with Cons.prems have "i \<in> set js" "distinct js" by simp_all
    moreover have "i < length (fst (applyAnnotations_body ann pre j st))"
      using Cons.prems by (simp add: body_length)
    ultimately have "fst (fold (applyAnnotations_body ann pre) js (applyAnnotations_body ann pre j st)) ! i
        = patchLine pre name (fst (applyAnnotations_body ann pre j st) ! i)"
      using Cons.IH Cons.prems(4) by blast
    then show ?thesis using False by (simp add: body_other)
  qed
qed

lemma fold_body_fixed:
  "(\<forall>i \<in> set js. \<forall>name. ann (int i) = Some name \<longrightarrow>
      strings_Contains (strings_TrimSpace (fst st ! i)) (expectedDirective pre name)) \<Longrightarrow>
   fold (applyAnnotations_body ann pre) js st = st"
proof (induction js)
  case Nil
  show ?case by simp
next
  case (Cons j js)
  have "applyAnnotations_body ann pre j st = st"
  proof (cases "ann (int j)")
    case None then show ?thesis by (rule body_none)
  next
    case (Some name)
    with Cons.prems show ?thesis by (simp add: body_correct)
  qed
  with Cons show ?case by simp
qed

lemma applyAnnotations_length:
  "length (fst (applyAnnotations lines ann pre r)) = length lines"
  by (simp add: applyAnnotations_def fold_body_length)

lemma applyAnnotations_at:
  "i < length lines \<Longrightarrow> ann (int i) = Some name \<Longrightarrow>
   fst (applyAnnotations lines ann pre r) ! i = patchLine pre name (lines ! i)"
  by (simp add: applyAnnotations_def fold_body_at)

lemma applyAnnotations_correct:
  "(\<forall>i < length lines. \<forall>name. ann (int i) = Some name \<longrightarrow>
      strings_Contains (strings_TrimSpace (lines ! i)) (expectedDirective pre name)) \<Longrightarrow>
   applyAnnotations lines ann pre r = (lines, r, 0)"
  by (simp add: applyAnnotations_def fold_body_fixed)

lemma patchLine_contains:
  assumes "name \<noteq> []" and "solid (last name)"
  shows "strings_Contains (strings_TrimSpace (patchLine pre name l)) (expectedDirective pre name)"
proof -
  have "strings_Contains (strings_TrimSpace ((X @ '' // '') @ expectedDirective pre name @ []))
          (expectedDirective pre name)" for X
    using assms by (rule TrimSpace_keeps_directive)
  then have "strings_Contains (strings_TrimSpace (X @ '' // '' @ expectedDirective pre name))
          (expectedDirective pre name)" for X
    by simp
  then show ?thesis
    by (simp add: patchLine_def split: option.split)
qed

lemma applyAnnotations_again:
  assumes "\<forall>i name. ann i = Some name \<longrightarrow> name \<noteq> [] \<and> solid (last name)"
  shows "applyAnnotations (fst (applyAnnotations lines ann pre r)) ann pre r' =
           (fst (applyAnnotations lines ann pre r), r', 0)"
proof (rule applyAnnotations_correct, intro allI impI)
  fix i name
  assume i: "i < length (fst (applyAnnotations lines ann pre r))" and n: "ann (int i) = Some name"
  then have "i < length lines" by (simp add: applyAnnotations_length)
  then have "fst (applyAnnotations lines ann pre r) ! i = patchLine pre name (lines ! i)"
    using n by (rule applyAnnotations_at)
  moreover have "name \<noteq> []" "solid (last name)" using assms n by blast+
  ultimately show "strings_Contains (strings_TrimSpace (fst (applyAnnotations lines ann pre r) ! i))
           (expectedDirective pre name)"
    by (simp add: patchLine_contains)
qed

section \<open>Traversal of the syntax tree\<close>

lemma children_in_preorder:
  "c \<in> set (children n) \<Longrightarrow> set (preorder c) \<subseteq> set (preorder n)"
  by (cases n) auto

lemma ast_Inspect_invariant:
  assumes step: "\<And>m s. m \<in> set (preorder n) \<Longrightarrow> P s \<Longrightarrow> P (snd (v m s))"
    and init: "P s"
  shows "P (ast_Inspect v n s)"
  using assms
proof (induction n arbitrary: s rule: preorder.induct)
  case (1 ts ns)
  have kids: "P t \<Longrightarrow> set ks \<subseteq> set ns \<Longrightarrow> P (fold (ast_Inspect v) ks t)" for ks t
  proof (induction ks arbitrary: t)
    case Nil then show ?case by simp
  next
    case (Cons k ks)
    have "P (ast_Inspect v k t)"
    proof (rule "1.IH")
      show "k \<in> set ns" using Cons.prems by simp
      show "P t" by fact
      fix m s assume "m \<in> set (preorder k)" "P s"
      moreover have "set (preorder k) \<subseteq> set (preorder (TypeSpec ts ns))"
        using Cons.prems by (intro children_in_preorder) simp
      ultimately show "P (snd (v m s))" using "1.prems"(1) by blast
    qed
    with Cons show ?case by simp
  qed
  have "P (snd (v (TypeSpec ts ns) s))" using 1 by simp
  then show ?case
    using kids [of _ ns] by (cases "v (TypeSpec ts ns) s") (auto split: bool.split)
next
  case (2 ns)
  have kids: "P t \<Longrightarrow> set ks \<subseteq> set ns \<Longrightarrow> P (fold (ast_Inspect v) ks t)" for ks t
  proof (induction ks arbitrary: t)
    case Nil then show ?case by simp
  next
    case (Cons k ks)
    have "P (ast_Inspect v k t)"
    proof (rule "2.IH")
      show "k \<in> set ns" using Cons.prems by simp
      show "P t" by fact
      fix m s assume "m \<in> set (preorder k)" "P s"
      moreover have "set (preorder k) \<subseteq> set (preorder (OtherNode ns))"
        using Cons.prems by (intro children_in_preorder) simp
      ultimately show "P (snd (v m s))" using "2.prems"(1) by blast
    qed
    with Cons show ?case by simp
  qed
  have "P (snd (v (OtherNode ns) s))" using 2 by simp
  then show ?case
    using kids [of _ ns] by (cases "v (OtherNode ns) s") (auto split: bool.split)
qed

lemma ast_Inspect_all:
  assumes "\<And>m s. fst (v m s)"
  shows "ast_Inspect v n s = fold (\<lambda>m s. snd (v m s)) (preorder n) s"
proof (induction n arbitrary: s rule: preorder.induct)
  case (1 ts ns)
  have kids: "set ks \<subseteq> set ns \<Longrightarrow>
      fold (ast_Inspect v) ks t = fold (\<lambda>m s. snd (v m s)) (concat (map preorder ks)) t" for ks t
    by (induction ks arbitrary: t) (simp_all add: "1.IH")
  have "fst (v (TypeSpec ts ns) s)" by (rule assms)
  then obtain s' where "v (TypeSpec ts ns) s = (True, s')"
    by (cases "v (TypeSpec ts ns) s") auto
  then show ?case
    using kids [of ns] by simp
next
  case (2 ns)
  have kids: "set ks \<subseteq> set ns \<Longrightarrow>
      fold (ast_Inspect v) ks t = fold (\<lambda>m s. snd (v m s)) (concat (map preorder ks)) t" for ks t
    by (induction ks arbitrary: t) (simp_all add: "2.IH")
  have "fst (v (OtherNode ns) s)" by (rule assms)
  then obtain s' where "v (OtherNode ns) s = (True, s')"
    by (cases "v (OtherNode ns) s") auto
  then show ?case
    using kids [of ns] by simp
qed

lemma typeSpecsOf_set:
  "ts \<in> set (typeSpecsOf ns) \<longleftrightarrow> (\<exists>ks. TypeSpec ts ks \<in> set ns)"
  by (induction ns rule: typeSpecsOf.induct) auto

lemma fold_collect:
  assumes "\<And>ts ks S. step (TypeSpec ts ks) S = (if P ts then insert (g ts) S else S)"
    and "\<And>ks S. step (OtherNode ks) S = S"
  shows "fold step ns S = S \<union> {g ts | ts. ts \<in> set (typeSpecsOf ns) \<and> P ts}"
  by (induction ns arbitrary: S rule: typeSpecsOf.induct) (auto simp: assms)

section \<open>What the passes collect\<close>




lemma findInner_visit_fst: "fst (findSearchResponseInnerTypes_visit ig n S)"
  by (simp add: findSearchResponseInnerTypes_visit_def Let_def split: node.split)

lemma findInner_visit_snd:
  "snd (findSearchResponseInnerTypes_visit ig (TypeSpec ts ks) S) =
     (if IsExported (ts_Name ts) \<and> ts_Name ts \<notin> ig \<and> isSearchWrapper (extractTypeInfo ts)
         \<and> InnerType (extractTypeInfo ts) \<noteq> []
      then insert (InnerType (extractTypeInfo ts)) S else S)"
  "snd (findSearchResponseInnerTypes_visit ig (OtherNode ks) S) = S"
  by (auto simp: findSearchResponseInnerTypes_visit_def Let_def isSearchWrapper_def)

lemma findInner_eq:
  "findSearchResponseInnerTypes f ig S =
     S \<union> {InnerType (extractTypeInfo ts) | ts. ts \<in> set (declarations f) \<and>
             (IsExported (ts_Name ts) \<and> ts_Name ts \<notin> ig \<and> isSearchWrapper (extractTypeInfo ts)
              \<and> InnerType (extractTypeInfo ts) \<noteq> [])}"
  unfolding findSearchResponseInnerTypes_def declarations_def
  by (subst ast_Inspect_all [OF findInner_visit_fst])
     (rule fold_collect, simp_all add: findInner_visit_snd)

lemma base_gives_flag:
  "GenericBase (extractTypeInfo ts) \<noteq> [] \<Longrightarrow>
   IsGeneric (extractTypeInfo ts) \<or> IsAlias (extractTypeInfo ts)"
  by (auto simp: extractTypeInfo_def handleIndexExpr_def handleIdentType_def zeroTypeInfo_def Let_def
           split: expr.splits if_splits)

lemma isSearchWrapper_extract:
  "isSearchWrapper (extractTypeInfo ts) \<longleftrightarrow> GenericBase (extractTypeInfo ts) = ''SearchResponse''"
  using base_gives_flag [of ts] by (auto simp: isSearchWrapper_def)

lemma IsExported_nonempty: "IsExported name \<Longrightarrow> name \<noteq> []"
proof
  assume e: "IsExported name" and "name = []"
  then have "unicode_IsUpper RuneError"
    by (simp add: IsExported_def utf8_DecodeRuneInString_def)
  moreover have "\<not> unicode_IsUpper RuneError" by code_simp
  ultimately show False by simp
qed

section \<open>Invariants of the annotation plan\<close>

lemma planAll_upd: "planAll Q p \<Longrightarrow> Q L n \<Longrightarrow> planAll Q ((fst p)(L \<mapsto> n), S)"
  by (simp add: planAll_def)

lemma planAll_inner_step:
  assumes "planAll Q p"
    and "\<And>its ks. m = TypeSpec its ks \<Longrightarrow> ts_Name its = T \<Longrightarrow> T \<notin> ig \<Longrightarrow>
           Q (ts_EndLine its - 1) item"
  shows "planAll Q (snd (addAnnotations_inner ig T item m p))"
  using assms
  by (cases m) (auto simp: addAnnotations_inner_def Let_def planAll_def)

lemma planAll_inner:
  assumes "planAll Q p"
    and "\<And>its. its \<in> set (declarations f) \<Longrightarrow> ts_Name its = T \<Longrightarrow> T \<notin> ig \<Longrightarrow>
           Q (ts_EndLine its - 1) item"
  shows "planAll Q (ast_Inspect (addAnnotations_inner ig T item) (f_Root f) p)"
proof (rule ast_Inspect_invariant [where P = "planAll Q"])
  show "planAll Q p" by fact
next
  fix m s
  assume m: "m \<in> set (preorder (f_Root f))" and s: "planAll Q s"
  show "planAll Q (snd (addAnnotations_inner ig T item m s))"
  proof (rule planAll_inner_step [OF s])
    fix its ks
    assume "m = TypeSpec its ks" "ts_Name its = T" "T \<notin> ig"
    moreover from this m have "its \<in> set (declarations f)"
      by (auto simp: declarations_def typeSpecsOf_set)
    ultimately show "Q (ts_EndLine its - 1) item" using assms(2) by blast
  qed
qed

lemma planAll_visit:
  assumes p: "planAll Q p"
    and main: "\<And>ts ks. m = TypeSpec ts ks \<Longrightarrow> IsExported (ts_Name ts) \<Longrightarrow> ts_Name ts \<notin> ig \<Longrightarrow>
           Name (extractTypeInfo ts) \<noteq> [] \<Longrightarrow>
           fst (generateAnnotationNameWithContext (extractTypeInfo ts) variant S) \<noteq> [] \<Longrightarrow>
           Q (ts_EndLine ts - 1) (fst (generateAnnotationNameWithContext (extractTypeInfo ts) variant S))"
    and item: "\<And>ts ks its. m = TypeSpec ts ks \<Longrightarrow> IsExported (ts_Name ts) \<Longrightarrow> ts_Name ts \<notin> ig \<Longrightarrow>
           Name (extractTypeInfo ts) \<noteq> [] \<Longrightarrow>
           snd (generateAnnotationNameWithContext (extractTypeInfo ts) variant S) \<noteq> [] \<Longrightarrow>
           its \<in> set (declarations f) \<Longrightarrow> ts_Name its = InnerType (extractTypeInfo ts) \<Longrightarrow>
           ts_Name its \<notin> ig \<Longrightarrow>
           Q (ts_EndLine its - 1) (snd (generateAnnotationNameWithContext (extractTypeInfo ts) variant S))"
  shows "planAll Q (snd (addAnnotations_visit f variant ig S m p))"
proof (cases m)
  case (OtherNode ks)
  with p show ?thesis by (simp add: addAnnotations_visit_def)
next
  case (TypeSpec ts ks)
  show ?thesis
  proof (cases "IsExported (ts_Name ts) \<and> ts_Name ts \<notin> ig \<and> Name (extractTypeInfo ts) \<noteq> []")
    case False
    with p TypeSpec show ?thesis by (auto simp: addAnnotations_visit_def Let_def)
  next
    case True
    obtain mainName itemName where
      g: "generateAnnotationNameWithContext (extractTypeInfo ts) variant S = (mainName, itemName)"
      by (cases "generateAnnotationNameWithContext (extractTypeInfo ts) variant S")
    define p1 where "p1 = (if mainName \<noteq> [] \<and> mainName \<notin> snd p
                            then ((fst p)(ts_EndLine ts - 1 \<mapsto> mainName), insert mainName (snd p))
                            else p)"
    have p1: "planAll Q p1"
    proof (cases "mainName \<noteq> [] \<and> mainName \<notin> snd p")
      case False
      with p show ?thesis by (auto simp: p1_def)
    next
      case m: True
      have "Q (ts_EndLine ts - 1) mainName"
        using main [OF TypeSpec] True g m by simp
      with p m show ?thesis by (simp add: p1_def planAll_upd)
    qed
    define p2 where "p2 = (if itemName \<noteq> [] \<and> itemName \<notin> snd p1
                            then (if InnerType (extractTypeInfo ts) \<noteq> []
                                  then ast_Inspect (addAnnotations_inner ig (InnerType (extractTypeInfo ts)) itemName) (f_Root f) p1
                                  else p1)
                            else p1)"
    have p2: "planAll Q p2"
    proof (cases "itemName \<noteq> [] \<and> itemName \<notin> snd p1 \<and> InnerType (extractTypeInfo ts) \<noteq> []")
      case False
      with p1 show ?thesis by (auto simp: p2_def)
    next
      case i: True
      have "planAll Q (ast_Inspect (addAnnotations_inner ig (InnerType (extractTypeInfo ts)) itemName) (f_Root f) p1)"
      proof (rule planAll_inner [OF p1])
        fix its
        assume "its \<in> set (declarations f)" "ts_Name its = InnerType (extractTypeInfo ts)"
          "InnerType (extractTypeInfo ts) \<notin> ig"
        then show "Q (ts_EndLine its - 1) itemName"
          using item [OF TypeSpec, of its] True g i by simp
      qed
      with i show ?thesis by (simp add: p2_def)
    qed
    have "snd (addAnnotations_visit f variant ig S m p) = p2"
      using True TypeSpec g by (simp add: addAnnotations_visit_def Let_def p1_def p2_def)
    with p2 show ?thesis by simp
  qed
qed

lemma planAll_addAnnotations:
  assumes p: "planAll Q p"
    and main: "\<And>ts. ts \<in> set (declarations f) \<Longrightarrow> IsExported (ts_Name ts) \<Longrightarrow> ts_Name ts \<notin> ig \<Longrightarrow>
           Name (extractTypeInfo ts) \<noteq> [] \<Longrightarrow>
           fst (generateAnnotationNameWithContext (extractTypeInfo ts) variant S) \<noteq> [] \<Longrightarrow>
           Q (ts_EndLine ts - 1) (fst (generateAnnotationNameWithContext (extractTypeInfo ts) variant S))"
    and item: "\<And>ts its. ts \<in> set (declarations f) \<Longrightarrow> IsExported (ts_Name ts) \<Longrightarrow> ts_Name ts \<notin> ig \<Longrightarrow>
           Name (extractTypeInfo ts) \<noteq> [] \<Longrightarrow>
           snd (generateAnnotationNameWithContext (extractTypeInfo ts) variant S) \<noteq> [] \<Longrightarrow>
           its \<in> set (declarations f) \<Longrightarrow> ts_Name its = InnerType (extractTypeInfo ts) \<Longrightarrow>
           ts_Name its \<notin> ig \<Longrightarrow>
           Q (ts_EndLine its - 1) (snd (generateAnnotationNameWithContext (extractTypeInfo ts) variant S))"
  shows "planAll Q (addAnnotations f variant ig S p)"
  unfolding addAnnotations_def
proof (rule ast_Inspect_invariant [where P = "planAll Q"])
  show "planAll Q p" by fact
next
  fix m s
  assume m: "m \<in> set (preorder (f_Root f))" and s: "planAll Q s"
  have d: "ts \<in> set (declarations f)" if "m = TypeSpec ts ks" for ts ks
    using that m by (auto simp: declarations_def typeSpecsOf_set)
  show "planAll Q (snd (addAnnotations_visit f variant ig S m s))"
    by (rule planAll_visit [OF s]) (use d main item in blast)+
qed

section \<open>Suffixes and generated names\<close>

lemma TrimSuffix_append: "strings_TrimSuffix (x @ suf) suf = x"
  by (simp add: strings_TrimSuffix_def suffix_def)

lemma TrimSuffix_no: "\<not> suffix suf s \<Longrightarrow> strings_TrimSuffix s suf = s"
  by (simp add: strings_TrimSuffix_def)

lemma stripSuffixes_cases:
  "stripSuffixes name =
     (if suffix ''RequestResponse'' name then take (length name - 15) name
      else if suffix ''Response'' name then take (length name - 8) name
      else if suffix ''Request'' name then take (length name - 7) name
      else name)"
proof (cases "suffix ''Response'' name")
  case False
  then have "\<not> suffix (''Request'' @ ''Response'') name"
    using suffix_appendD by blast
  with False show ?thesis
    by (simp add: stripSuffixes_def strings_TrimSuffix_def eval_nat_numeral)
next
  case True
  then obtain x where x: "name = x @ ''Response''" by (auto simp: suffix_def)
  have rr: "suffix ''RequestResponse'' name \<longleftrightarrow> suffix ''Request'' x"
    using same_suffix_suffix [of "''Request''" "''Response''" x] by (simp add: x)
  show ?thesis
  proof (cases "suffix ''Request'' x")
    case False
    with rr True show ?thesis
      by (simp add: stripSuffixes_def x TrimSuffix_append [of x "''Response''", simplified] TrimSuffix_no)
  next
    case r: True
    then obtain y where y: "x = y @ ''Request''" by (auto simp: suffix_def)
    have "stripSuffixes name = y"
      using TrimSuffix_append [of x "''Response''"] TrimSuffix_append [of y "''Request''"]
      by (simp add: stripSuffixes_def x y)
    with rr r show ?thesis by (simp add: x y)
  qed
qed

lemma both_strips:
  "(suffix ''Response'' name \<and> suffix ''Request'' (strings_TrimSuffix name ''Response''))
     = suffix ''RequestResponse'' name"
proof (cases "suffix ''Response'' name")
  case False
  then have "\<not> suffix (''Request'' @ ''Response'') name"
    using suffix_appendD by blast
  with False show ?thesis by simp
next
  case True
  then obtain x where x: "name = x @ ''Response''" by (auto simp: suffix_def)
  have "suffix ''RequestResponse'' name \<longleftrightarrow> suffix ''Request'' x"
    using same_suffix_suffix [of "''Request''" "''Response''" x] by (simp add: x)
  moreover have "strings_TrimSuffix name ''Response'' = x"
    using TrimSuffix_append [of x "''Response''"] by (simp add: x)
  ultimately show ?thesis using True by simp
qed

lemma solid_s: "solid (CHR ''s'')" and solid_q: "solid (CHR ''q'')"
  by (simp_all add: solid_def whiteSpace_def)

lemma generate_main_solid:
  "fst (generateAnnotationNameWithContext info variant S) \<noteq> [] \<Longrightarrow>
   solid (last (fst (generateAnnotationNameWithContext info variant S)))"
  by (auto simp: generateAnnotationNameWithContext_def Let_def solid_s solid_q split: if_splits)

lemma generate_item_solid:
  "snd (generateAnnotationNameWithContext info variant S) \<noteq> [] \<Longrightarrow>
   solid (last (snd (generateAnnotationNameWithContext info variant S)))"
  by (auto simp: generateAnnotationNameWithContext_def Let_def solid_s solid_q split: if_splits)

lemma planAll_empty: "planAll Q (Map.empty, {})"
  by (simp add: planAll_def)

lemma multiPass_names_solid:
  "multiPass f lines variant L = Some n \<Longrightarrow> n \<noteq> [] \<and> solid (last n)"
proof -
  have "planAll (\<lambda>L n. n \<noteq> [] \<and> solid (last n))
          (addAnnotations f variant ig S (Map.empty, {}))" for ig S
    by (rule planAll_addAnnotations [OF planAll_empty])
       (simp_all add: generate_main_solid generate_item_solid)
  then show "multiPass f lines variant L = Some n \<Longrightarrow> n \<noteq> [] \<and> solid (last n)"
    by (simp add: multiPass_def Let_def planAll_def)
qed

lemma multiPass_lines:
  "multiPass f lines variant L = Some n \<Longrightarrow>
   \<exists>ts \<in> set (declarations f). ts_Name ts \<notin> findIgnoredTypes f lines {} \<and> L = ts_EndLine ts - 1"
proof -
  have "planAll (\<lambda>L n. \<exists>ts \<in> set (declarations f). ts_Name ts \<notin> ig \<and> L = ts_EndLine ts - 1)
          (addAnnotations f variant ig S (Map.empty, {}))" for ig S
    by (rule planAll_addAnnotations [OF planAll_empty]) blast+
  then have "planAll (\<lambda>L n. \<exists>ts \<in> set (declarations f).
                 ts_Name ts \<notin> findIgnoredTypes f lines {} \<and> L = ts_EndLine ts - 1)
          (addAnnotations f variant (findIgnoredTypes f lines {})
             (findSearchResponseInnerTypes f (findIgnoredTypes f lines {}) {}) (Map.empty, {}))"
    by blast
  then show "multiPass f lines variant L = Some n \<Longrightarrow> ?thesis"
    unfolding multiPass_def Let_def planAll_def by blast
qed

lemma reapplying_plan_changes_nothing:
  "applyAnnotations (fst (applyAnnotations lines (multiPass f lines variant) pre r))
       (multiPass f lines variant) pre r'
     = (fst (applyAnnotations lines (multiPass f lines variant) pre r), r', 0)"
  by (rule applyAnnotations_again) (simp add: multiPass_names_solid)

section \<open>Files: when the pipeline writes\<close>

lemma patchLine_correct:
  "strings_Contains (strings_TrimSpace l) (expectedDirective pre name) \<Longrightarrow> patchLine pre name l = l"
  by (simp add: patchLine_def)

lemma processFile_unchanged_or_applied:
  assumes "fst (snd (processFile e fn pre variant (w, r))) \<noteq> w"
  shows "\<exists>src f. w_ReadFile w fn = Inr src \<and> e_ParseFile e fn src = Inr f \<and>
           0 < snd (snd (applyAnnotations (bytes_Split src)
                            (multiPass f (bytes_Split src) variant) pre r))"
proof (cases "w_ReadFile w fn")
  case (Inl err)
  with assms show ?thesis by (simp add: processFile_def)
next
  case (Inr src)
  show ?thesis
  proof (cases "e_ParseFile e fn src")
    case (Inl err)
    with Inr assms show ?thesis by (simp add: processFile_def)
  next
    case f: (Inr f)
    obtain ls r1 n where a: "applyAnnotations (bytes_Split src)
                            (multiPass f (bytes_Split src) variant) pre r = (ls, r1, n)"
      by (cases "applyAnnotations (bytes_Split src) (multiPass f (bytes_Split src) variant) pre r")
    have "0 < n"
    proof (rule ccontr)
      assume "\<not> 0 < n"
      with Inr f a have "processFile e fn pre variant (w, r) = (None, w, r1)"
        by (simp add: processFile_def Let_def)
      with assms show False by simp
    qed
    with Inr f a show ?thesis by simp
  qed
qed

lemma processFile_all_correct:
  assumes "w_ReadFile w fn = Inr src" and "e_ParseFile e fn src = Inr f"
    and "\<forall>i < length (bytes_Split src). \<forall>name.
           multiPass f (bytes_Split src) variant (int i) = Some name \<longrightarrow>
           strings_Contains (strings_TrimSpace (bytes_Split src ! i)) (expectedDirective pre name)"
  shows "processFile e fn pre variant (w, r) = (None, w, r)"
proof -
  have "applyAnnotations (bytes_Split src) (multiPass f (bytes_Split src) variant) pre r
          = (bytes_Split src, r, 0)"
    using assms(3) by (rule applyAnnotations_correct)
  with assms(1,2) show ?thesis by (simp add: processFile_def Let_def)
qed

section \<open>The inner-type set depends on names and shapes only\<close>

lemma extractTypeInfo_shape:
  "declShape ts = declShape ts' \<Longrightarrow> extractTypeInfo ts = extractTypeInfo ts'"
  by (auto simp: declShape_def extractTypeInfo_def handleIndexExpr_def Let_def split: expr.splits)

lemma inner_types_mono:
  assumes "set (map declShape (declarations g)) \<subseteq> set (map declShape (declarations f))"
  shows "findSearchResponseInnerTypes g ig {} \<subseteq> findSearchResponseInnerTypes f ig {}"
proof
  fix x
  assume "x \<in> findSearchResponseInnerTypes g ig {}"
  then have "\<exists>ts. ts \<in> set (declarations g) \<and> IsExported (ts_Name ts) \<and> ts_Name ts \<notin> ig \<and>
      isSearchWrapper (extractTypeInfo ts) \<and> InnerType (extractTypeInfo ts) \<noteq> [] \<and>
      x = InnerType (extractTypeInfo ts)"
    unfolding findInner_eq by blast
  then obtain ts where ts: "ts \<in> set (declarations g)" "IsExported (ts_Name ts)" "ts_Name ts \<notin> ig"
      "isSearchWrapper (extractTypeInfo ts)" "InnerType (extractTypeInfo ts) \<noteq> []"
      "x = InnerType (extractTypeInfo ts)"
    by blast
  from ts(1) have "declShape ts \<in> set (map declShape (declarations g))" by simp
  with assms have "declShape ts \<in> set (map declShape (declarations f))" by blast
  then obtain ts' where ts': "ts' \<in> set (declarations f)" "declShape ts = declShape ts'"
    by auto
  from ts'(2) have i: "extractTypeInfo ts = extractTypeInfo ts'"
    by (rule extractTypeInfo_shape)
  from ts'(2) have n: "ts_Name ts = ts_Name ts'"
    by (simp add: declShape_def)
  have "\<exists>t. t \<in> set (declarations f) \<and> IsExported (ts_Name t) \<and> ts_Name t \<notin> ig \<and>
      isSearchWrapper (extractTypeInfo t) \<and> InnerType (extractTypeInfo t) \<noteq> [] \<and>
      x = InnerType (extractTypeInfo t)"
    using ts ts'(1) i n by (intro exI [of _ ts']) simp
  then show "x \<in> findSearchResponseInnerTypes f ig {}"
    unfolding findInner_eq by blast
qed

section \<open>Paths, walks and the run\<close>

lemma filepath_Rel_prefix: "ys \<noteq> [] \<Longrightarrow> filepath_Rel xs (xs @ ys) = Inr ys"
  by (induction xs) (auto simp: neq_Nil_conv)

lemma body_FilesProcessed:
  "FilesProcessed (fst (snd (applyAnnotations_body ann pre i st))) = FilesProcessed (fst (snd st))"
  by (cases st)
     (simp add: applyAnnotations_body_def Let_def AddAnnotation_def ReplaceAnnotation_def
           split: option.split)

lemma applyAnnotations_FilesProcessed:
  "FilesProcessed (fst (snd (applyAnnotations lines ann pre r))) = FilesProcessed r"
proof -
  have "FilesProcessed (fst (snd (fold (applyAnnotations_body ann pre) js st)))
          = FilesProcessed (fst (snd st))" for js st
    by (induction js arbitrary: st) (simp_all add: body_FilesProcessed)
  then show ?thesis by (simp add: applyAnnotations_def)
qed

lemma processFile_FilesProcessed:
  "FilesProcessed (snd (snd (processFile e fn pre variant (w, r)))) = FilesProcessed r"
proof (cases "w_ReadFile w fn")
  case (Inl err)
  then show ?thesis by (simp add: processFile_def)
next
  case (Inr src)
  show ?thesis
  proof (cases "e_ParseFile e fn src")
    case (Inl err)
    with Inr show ?thesis by (simp add: processFile_def)
  next
    case f: (Inr f)
    obtain ls r1 n where a: "applyAnnotations (bytes_Split src)
                            (multiPass f (bytes_Split src) variant) pre r = (ls, r1, n)"
      by (cases "applyAnnotations (bytes_Split src) (multiPass f (bytes_Split src) variant) pre r")
    have "FilesProcessed r1 = FilesProcessed r"
      using applyAnnotations_FilesProcessed [of "bytes_Split src" _ pre r] a
      by (metis fst_conv snd_conv)
    with Inr f a show ?thesis
      by (simp add: processFile_def Let_def split: prod.split option.split)
  qed
qed

lemma processSourceFile_FilesProcessed:
  "FilesProcessed (snd (snd (processSourceFile e root p pp dir (w, r)))) =
     FilesProcessed r +
     (case filepath_Rel (root @ basePath) p of
        Inr parts \<Rightarrow> if 2 \<le> length parts then 1 else 0
      | Inl err \<Rightarrow> 0)"
  by (cases "filepath_Rel (root @ basePath) p")
     (auto simp: processSourceFile_def Let_def processFile_FilesProcessed AddFile_def)

lemma walkFn_continues:
  "wc_err c = None \<Longrightarrow> fst (walkFn e root pp dir c st) = None"
  by (simp add: walkFn_def split: prod.split option.split)

lemma walkFn_records:
  assumes "wc_err c = None" and "\<not> wc_IsDir c" and "strings_HasSuffix (wc_Name c) ''.go''"
    and "processSourceFile e root (wc_path c) pp dir st = (Some err, w', r')"
  shows "walkFn e root pp dir c st = (None, w', AddError (ProcessingPath (wc_path c) err) r')"
  using assms by (simp add: walkFn_def)

lemma walkFn_FilesProcessed:
  assumes "wc_err c = None"
  shows "FilesProcessed (snd (snd (walkFn e root pp dir c (w, r)))) =
           FilesProcessed r + (if eligible root c then 1 else 0)"
proof (cases "wc_IsDir c \<or> \<not> strings_HasSuffix (wc_Name c) ''.go''")
  case True
  with assms show ?thesis by (auto simp: walkFn_def eligible_def)
next
  case False
  obtain er w1 r1 where p: "processSourceFile e root (wc_path c) pp dir (w, r) = (er, w1, r1)"
    by (cases "processSourceFile e root (wc_path c) pp dir (w, r)")
  have "FilesProcessed r1 = FilesProcessed r +
     (case filepath_Rel (root @ basePath) (wc_path c) of
        Inr parts \<Rightarrow> if 2 \<le> length parts then 1 else 0
      | Inl err \<Rightarrow> 0)"
    using processSourceFile_FilesProcessed [of e root "wc_path c" pp dir w r] p by simp
  with False assms p show ?thesis
    by (cases er) (auto simp: walkFn_def eligible_def AddError_def split: sum.splits)
qed

lemma Walk_FilesProcessed:
  "FilesProcessed (snd (snd (filepath_Walk cs (walkFn e root pp dir) (w, r)))) =
     FilesProcessed r + length (filter (eligible root) (reached cs))"
proof (induction cs arbitrary: w r)
  case Nil
  show ?case by (simp add: reached_def)
next
  case (Cons c cs)
  show ?case
  proof (cases "wc_err c")
    case (Some err)
    then show ?thesis by (simp add: walkFn_def reached_def)
  next
    case None
    obtain er w1 r1 where s: "walkFn e root pp dir c (w, r) = (er, w1, r1)"
      by (cases "walkFn e root pp dir c (w, r)")
    have er: "er = None" using walkFn_continues [OF None, of e root pp dir "(w, r)"] s by simp
    have "FilesProcessed r1 = FilesProcessed r + (if eligible root c then 1 else 0)"
      using walkFn_FilesProcessed [OF None, of e root pp dir w r] s by simp
    with None s er Cons.IH [of w1 r1] show ?thesis by (simp add: reached_def)
  qed
qed

lemma body_dir_FilesProcessed:
  "FilesProcessed (snd (processSourceDirectories_body e root pp dir (w, r))) =
     FilesProcessed r + length (filter (eligible root) (reached (e_Walk e (root @ basePath @ [dir]))))"
proof -
  obtain er w1 r1 where s: "filepath_Walk (e_Walk e (root @ basePath @ [dir]))
                               (walkFn e root pp dir) (w, r) = (er, w1, r1)"
    by (cases "filepath_Walk (e_Walk e (root @ basePath @ [dir])) (walkFn e root pp dir) (w, r)")
  have "FilesProcessed r1 = FilesProcessed r +
          length (filter (eligible root) (reached (e_Walk e (root @ basePath @ [dir]))))"
    using Walk_FilesProcessed [of "e_Walk e (root @ basePath @ [dir])" e root pp dir w r] s by simp
  with s show ?thesis
    by (cases er) (simp_all add: processSourceDirectories_body_def Let_def AddError_def)
qed

lemma processSourceDirectories_FilesProcessed:
  "FilesProcessed (snd (processSourceDirectories e root pp w)) =
     length (filter (eligible root) (reached (e_Walk e (root @ basePath @ [''request'']))))
     + length (filter (eligible root) (reached (e_Walk e (root @ basePath @ [''response'']))))"
proof -
  obtain w1 r1 where s: "processSourceDirectories_body e root pp ''request'' (w, emptyResult) = (w1, r1)"
    by (cases "processSourceDirectories_body e root pp ''request'' (w, emptyResult)")
  have "FilesProcessed r1 =
          length (filter (eligible root) (reached (e_Walk e (root @ basePath @ [''request'']))))"
    using body_dir_FilesProcessed [of e root pp "''request''" w emptyResult] s
    by (simp add: emptyResult_def)
  then show ?thesis
    using body_dir_FilesProcessed [of e root pp "''response''" w1 r1] s
    by (simp add: processSourceDirectories_def sourceDirs_def)
qed

lemma Run_verdict:
  assumes "e_Getwd e = Inr root"
  shows "(fst (Run e w) \<noteq> None) =
           (Errors (snd (processSourceDirectories e root (getProjectPrefix e) w)) \<noteq> [])"
  using assms by (simp add: Run_def Let_def HasErrors_def split: prod.split)

lemma processFile_read_fails:
  "w_ReadFile w fn = Inl err \<Longrightarrow>
   processFile e fn pre variant (w, r) = (Some (ReadingFile err), w, r)"
  by (simp add: processFile_def)

lemma processFile_parse_fails:
  "w_ReadFile w fn = Inr src \<Longrightarrow> e_ParseFile e fn src = Inl err \<Longrightarrow>
   processFile e fn pre variant (w, r) = (Some (ParsingFile err), w, r)"
  by (simp add: processFile_def)

lemma processFile_write_fails:
  assumes "w_ReadFile w fn = Inr src" and "e_ParseFile e fn src = Inr f"
    and "0 < snd (snd (applyAnnotations (bytes_Split src) (multiPass f (bytes_Split src) variant) pre r))"
    and "w_WriteError w fn = Some err"
  shows "fst (processFile e fn pre variant (w, r)) = Some (WritingFile (WritingToFile err))"
proof -
  obtain ls r1 n where a: "applyAnnotations (bytes_Split src)
                            (multiPass f (bytes_Split src) variant) pre r = (ls, r1, n)"
    by (cases "applyAnnotations (bytes_Split src) (multiPass f (bytes_Split src) variant) pre r")
  with assms(3) have "0 < n" by simp
  with assms(1,2,4) a show ?thesis
    by (simp add: processFile_def Let_def writeFile_def os_WriteFile_def)
qed

section \<open>Splitting what was joined, and the second run\<close>

lemma bytes_Split_nonempty: "bytes_Split s \<noteq> []"
  by (induction s) (auto split: list.split)

lemma bytes_Split_no_newline: "l \<in> set (bytes_Split s) \<Longrightarrow> CHR 0x0A \<notin> set l"
  by (induction s arbitrary: l) (auto split: list.splits if_splits)

lemma bytes_Split_append:
  "CHR 0x0A \<notin> set l \<Longrightarrow> bytes_Split (l @ CHR 0x0A # rest) = l # bytes_Split rest"
  by (induction l) auto

lemma bytes_Split_line: "CHR 0x0A \<notin> set l \<Longrightarrow> bytes_Split l = [l]"
  by (induction l) auto

lemma bytes_Split_Join:
  "ls \<noteq> [] \<Longrightarrow> \<forall>l \<in> set ls. CHR 0x0A \<notin> set l \<Longrightarrow> bytes_Split (bytes_Join ls) = ls"
  by (induction ls rule: bytes_Join.induct) (simp_all add: bytes_Split_line bytes_Split_append)

lemma patchLine_no_newline:
  assumes "CHR 0x0A \<notin> set l" and "CHR 0x0A \<notin> set pre" and "CHR 0x0A \<notin> set name"
  shows "CHR 0x0A \<notin> set (patchLine pre name l)"
proof -
  have "CHR 0x0A \<notin> set (take k l)" for k
    using assms(1) in_set_takeD by fastforce
  with assms show ?thesis
    by (simp add: patchLine_def expectedDirective_def split: option.split)
qed

lemma applyAnnotations_no_newline:
  assumes "\<forall>l \<in> set lines. CHR 0x0A \<notin> set l" and "CHR 0x0A \<notin> set pre"
    and "\<forall>L n. ann L = Some n \<longrightarrow> CHR 0x0A \<notin> set n"
  shows "\<forall>l \<in> set (fst (applyAnnotations lines ann pre r)). CHR 0x0A \<notin> set l"
proof
  fix l
  assume "l \<in> set (fst (applyAnnotations lines ann pre r))"
  then obtain i where i: "i < length lines" and l: "l = fst (applyAnnotations lines ann pre r) ! i"
    by (auto simp: in_set_conv_nth applyAnnotations_length)
  from i assms(1) have old: "CHR 0x0A \<notin> set (lines ! i)" by simp
  show "CHR 0x0A \<notin> set l"
  proof (cases "ann (int i)")
    case None
    then have "l = lines ! i"
      using l by (simp add: applyAnnotations_def fold_body_none)
    with old show ?thesis by simp
  next
    case (Some n)
    then have "l = patchLine pre n (lines ! i)"
      using l i by (simp add: applyAnnotations_at)
    moreover have "CHR 0x0A \<notin> set n" using assms(3) Some by blast
    ultimately show ?thesis using old assms(2) by (simp add: patchLine_no_newline)
  qed
qed

lemma body_count_zero:
  "snd (snd (applyAnnotations_body ann pre i st)) = 0 \<Longrightarrow> applyAnnotations_body ann pre i st = st"
  by (cases st) (auto simp: applyAnnotations_body_def Let_def split: option.splits if_splits)

lemma fold_body_count_zero:
  "snd (snd (fold (applyAnnotations_body ann pre) js st)) = 0 \<Longrightarrow>
   fold (applyAnnotations_body ann pre) js st = st"
proof (induction js arbitrary: st)
  case Nil
  show ?case by simp
next
  case (Cons j js)
  from Cons.prems have z: "snd (snd (fold (applyAnnotations_body ann pre) js
                                      (applyAnnotations_body ann pre j st))) = 0"
    by simp
  then have f: "fold (applyAnnotations_body ann pre) js (applyAnnotations_body ann pre j st)
             = applyAnnotations_body ann pre j st"
    by (rule Cons.IH)
  with z have "snd (snd (applyAnnotations_body ann pre j st)) = 0" by simp
  then have "applyAnnotations_body ann pre j st = st" by (rule body_count_zero)
  with f show ?case by simp
qed

lemma applyAnnotations_count_zero:
  "applyAnnotations lines ann pre r = (lines', r', 0) \<Longrightarrow> lines' = lines \<and> r' = r"
  using fold_body_count_zero [of ann pre "[0..<length lines]" "(lines, r, 0)"]
  by (simp add: applyAnnotations_def)

lemma applyAnnotations_cong:
  assumes "\<forall>i < length lines. ann (int i) = ann' (int i)"
  shows "applyAnnotations lines ann pre r = applyAnnotations lines ann' pre r"
proof -
  have "applyAnnotations_body ann pre i = applyAnnotations_body ann' pre i"
    if "i \<in> set [0..<length lines]" for i
  proof
    fix st
    from that assms have "ann (int i) = ann' (int i)" by simp
    then show "applyAnnotations_body ann pre i st = applyAnnotations_body ann' pre i st"
      by (simp add: applyAnnotations_body_def)
  qed
  then show ?thesis
    unfolding applyAnnotations_def by (intro fold_cong) simp_all
qed

lemma second_run_same_plan:
  assumes rd: "w_ReadFile w fn = Inr src" and pa: "e_ParseFile e fn src = Inr f"
    and run1: "processFile e fn pre variant (w, r) = (None, w1, r1)"
    and rd1: "w_ReadFile w1 fn = Inr src1" and pa1: "e_ParseFile e fn src1 = Inr f1"
    and same: "\<forall>i < length (bytes_Split src1).
                 multiPass f1 (bytes_Split src1) variant (int i)
                   = multiPass f (bytes_Split src) variant (int i)"
    and nl: "CHR 0x0A \<notin> set pre"
      "\<forall>L n. multiPass f (bytes_Split src) variant L = Some n \<longrightarrow> CHR 0x0A \<notin> set n"
  shows "processFile e fn pre variant (w1, r1) = (None, w1, r1)"
proof -
  let ?lines = "bytes_Split src"
  let ?plan = "multiPass f ?lines variant"
  obtain ls r' n where a: "applyAnnotations ?lines ?plan pre r = (ls, r', n)"
    by (cases "applyAnnotations ?lines ?plan pre r")
  have ls: "ls = fst (applyAnnotations ?lines ?plan pre r)" using a by simp
  have again: "applyAnnotations ls ?plan pre r1 = (ls, r1, 0)"
    unfolding ls by (rule applyAnnotations_again) (simp add: multiPass_names_solid)
  have split1: "bytes_Split src1 = ls"
  proof (cases "n = 0")
    case True
    with a rd pa run1 have "w1 = w" by (simp add: processFile_def Let_def)
    with rd rd1 have "src1 = src" by simp
    moreover from a True have "ls = ?lines" by (simp add: applyAnnotations_count_zero)
    ultimately show ?thesis by simp
  next
    case False
    then have n: "0 < n" by simp
    have "w_WriteError w fn = None"
    proof (cases "w_WriteError w fn")
      case (Some err)
      with a rd pa n run1 show ?thesis
        by (simp add: processFile_def Let_def writeFile_def os_WriteFile_def)
    qed simp
    with a rd pa n run1 have "w1 = w\<lparr>w_ReadFile := (w_ReadFile w)(fn := Inr (bytes_Join ls))\<rparr>"
      by (simp add: processFile_def Let_def writeFile_def os_WriteFile_def)
    with rd1 have s: "src1 = bytes_Join ls" by simp
    have "length ls = length ?lines" using ls by (simp add: applyAnnotations_length)
    then have ne: "ls \<noteq> []" using bytes_Split_nonempty [of src] by auto
    have "\<forall>l \<in> set ls. CHR 0x0A \<notin> set l"
      unfolding ls using nl
      by (intro applyAnnotations_no_newline) (simp_all add: bytes_Split_no_newline)
    with ne s show ?thesis by (simp add: bytes_Split_Join)
  qed
  have "applyAnnotations ls (multiPass f1 ls variant) pre r1 = applyAnnotations ls ?plan pre r1"
    using same unfolding split1 by (rule applyAnnotations_cong)
  with again split1 rd1 pa1 show ?thesis
    by (simp add: processFile_def Let_def)
qed

section \<open>The nested traversal plans the item name\<close>

text \<open>
  The traversal that \<open>addAnnotations\<close> starts for the item name reaches the first
  declaration named like the inner type, plans the item name at its end line, and no
  later step removes that entry.
\<close>

lemma namedNode_simps:
  "namedNode T (TypeSpec ts ks) = (ts_Name ts = T)"
  "namedNode T (OtherNode ks) = False"
  by (simp_all add: namedNode_def)

lemma find_typeSpecsOf:
  "find (\<lambda>d. ts_Name d = T) (typeSpecsOf ns) = Some d \<Longrightarrow>
   \<exists>ks. find (namedNode T) ns = Some (TypeSpec d ks)"
  by (induction ns rule: typeSpecsOf.induct) (auto simp: namedNode_simps split: if_splits)

lemma find_append_cases:
  "find P (xs @ ys) = (case find P xs of Some x \<Rightarrow> Some x | None \<Rightarrow> find P ys)"
  by (induction xs) auto

lemma inner_step_keeps:
  assumes "fst s L = Some item \<and> item \<in> snd s"
  shows "fst (snd (addAnnotations_inner ig T item m s)) L = Some item \<and>
         item \<in> snd (snd (addAnnotations_inner ig T item m s))"
  using assms by (cases m) (auto simp: addAnnotations_inner_def Let_def)

lemma inner_inspect_keeps:
  assumes "fst s L = Some item \<and> item \<in> snd s"
  shows "fst (ast_Inspect (addAnnotations_inner ig T item) n s) L = Some item \<and>
         item \<in> snd (ast_Inspect (addAnnotations_inner ig T item) n s)"
  by (rule ast_Inspect_invariant [where P = "\<lambda>s. fst s L = Some item \<and> item \<in> snd s"])
     (use assms inner_step_keeps in blast)+

lemma inner_fold_keeps:
  assumes "fst s L = Some item \<and> item \<in> snd s"
  shows "fst (fold (ast_Inspect (addAnnotations_inner ig T item)) ks s) L = Some item \<and>
         item \<in> snd (fold (ast_Inspect (addAnnotations_inner ig T item)) ks s)"
  using assms
proof (induction ks arbitrary: s)
  case Nil
  then show ?case by simp
next
  case (Cons k ks)
  from Cons.prems
  have "fst (ast_Inspect (addAnnotations_inner ig T item) k s) L = Some item \<and>
        item \<in> snd (ast_Inspect (addAnnotations_inner ig T item) k s)"
    by (rule inner_inspect_keeps)
  then have "fst (fold (ast_Inspect (addAnnotations_inner ig T item)) ks
                    (ast_Inspect (addAnnotations_inner ig T item) k s)) L = Some item \<and>
        item \<in> snd (fold (ast_Inspect (addAnnotations_inner ig T item)) ks
                    (ast_Inspect (addAnnotations_inner ig T item) k s))"
    by (rule Cons.IH)
  then show ?case by simp
qed

lemma inner_reaches_first:
  assumes ig: "T \<notin> ig"
  shows "find (namedNode T) (preorder n) = Some (TypeSpec its0 ks0) \<Longrightarrow>
         fst (ast_Inspect (addAnnotations_inner ig T item) n s) (ts_EndLine its0 - 1) = Some item \<and>
         item \<in> snd (ast_Inspect (addAnnotations_inner ig T item) n s)"
proof (induction n arbitrary: s rule: preorder.induct)
  case (1 ts ns)
  let ?v = "addAnnotations_inner ig T item"
  let ?L = "ts_EndLine its0 - 1"
  have kids: "find (namedNode T) (concat (map preorder ks)) = Some (TypeSpec its0 ks0) \<Longrightarrow>
      set ks \<subseteq> set ns \<Longrightarrow>
      fst (fold (ast_Inspect ?v) ks t) ?L = Some item \<and> item \<in> snd (fold (ast_Inspect ?v) ks t)"
    for ks t
  proof (induction ks arbitrary: t)
    case Nil
    then show ?case by simp
  next
    case (Cons k ks)
    show ?case
    proof (cases "find (namedNode T) (preorder k)")
      case None
      with Cons.prems have "find (namedNode T) (concat (map preorder ks)) = Some (TypeSpec its0 ks0)"
        by (simp add: find_append_cases)
      with Cons show ?thesis by simp
    next
      case (Some m)
      with Cons.prems have "find (namedNode T) (preorder k) = Some (TypeSpec its0 ks0)"
        by (simp add: find_append_cases)
      moreover have "k \<in> set ns" using Cons.prems by simp
      ultimately have "fst (ast_Inspect ?v k t) ?L = Some item \<and> item \<in> snd (ast_Inspect ?v k t)"
        by (rule "1.IH" [rotated])
      then have "fst (fold (ast_Inspect ?v) ks (ast_Inspect ?v k t)) ?L = Some item \<and>
                 item \<in> snd (fold (ast_Inspect ?v) ks (ast_Inspect ?v k t))"
        by (rule inner_fold_keeps)
      then show ?thesis by simp
    qed
  qed
  show ?case
  proof (cases "ts_Name ts = T")
    case True
    with "1.prems" have "its0 = ts" by (simp add: namedNode_simps)
    have "?v (TypeSpec ts ns) s =
            (False, ((fst s)(ts_EndLine ts - 1 \<mapsto> item), insert item (snd s)))"
      using True ig by (simp add: addAnnotations_inner_def Let_def)
    with \<open>its0 = ts\<close> show ?thesis by simp
  next
    case False
    with "1.prems" have "find (namedNode T) (concat (map preorder ns)) = Some (TypeSpec its0 ks0)"
      by (simp add: namedNode_simps)
    then have "fst (fold (ast_Inspect ?v) ns s) ?L = Some item \<and> item \<in> snd (fold (ast_Inspect ?v) ns s)"
      by (rule kids) simp
    moreover have "?v (TypeSpec ts ns) s = (True, s)"
      using False by (simp add: addAnnotations_inner_def)
    ultimately show ?thesis by simp
  qed
next
  case (2 ns)
  let ?v = "addAnnotations_inner ig T item"
  let ?L = "ts_EndLine its0 - 1"
  have kids: "find (namedNode T) (concat (map preorder ks)) = Some (TypeSpec its0 ks0) \<Longrightarrow>
      set ks \<subseteq> set ns \<Longrightarrow>
      fst (fold (ast_Inspect ?v) ks t) ?L = Some item \<and> item \<in> snd (fold (ast_Inspect ?v) ks t)"
    for ks t
  proof (induction ks arbitrary: t)
    case Nil
    then show ?case by simp
  next
    case (Cons k ks)
    show ?case
    proof (cases "find (namedNode T) (preorder k)")
      case None
      with Cons.prems have "find (namedNode T) (concat (map preorder ks)) = Some (TypeSpec its0 ks0)"
        by (simp add: find_append_cases)
      with Cons show ?thesis by simp
    next
      case (Some m)
      with Cons.prems have "find (namedNode T) (preorder k) = Some (TypeSpec its0 ks0)"
        by (simp add: find_append_cases)
      moreover have "k \<in> set ns" using Cons.prems by simp
      ultimately have "fst (ast_Inspect ?v k t) ?L = Some item \<and> item \<in> snd (ast_Inspect ?v k t)"
        by (rule "2.IH" [rotated])
      then have "fst (fold (ast_Inspect ?v) ks (ast_Inspect ?v k t)) ?L = Some item \<and>
                 item \<in> snd (fold (ast_Inspect ?v) ks (ast_Inspect ?v k t))"
        by (rule inner_fold_keeps)
      then show ?thesis by simp
    qed
  qed
  from "2.prems" have "find (namedNode T) (concat (map preorder ns)) = Some (TypeSpec its0 ks0)"
    by (simp add: namedNode_simps)
  then have "fst (fold (ast_Inspect ?v) ns s) ?L = Some item \<and> item \<in> snd (fold (ast_Inspect ?v) ns s)"
    by (rule kids) simp
  moreover have "?v (OtherNode ns) s = (True, s)"
    by (simp add: addAnnotations_inner_def)
  ultimately show ?case by simp
qed

lemma extract_wrapper_name:
  "GenericBase (extractTypeInfo ts) \<noteq> [] \<Longrightarrow> Name (extractTypeInfo ts) = ts_Name ts"
  by (auto simp: extractTypeInfo_def handleIndexExpr_def handleIdentType_def zeroTypeInfo_def Let_def
           split: expr.splits if_splits)

lemma wrapper_visit:
  assumes "IsExported (ts_Name ts)" and "ts_Name ts \<notin> ig"
    and "IsGeneric (extractTypeInfo ts) \<or> IsAlias (extractTypeInfo ts)"
    and "GenericBase (extractTypeInfo ts) = ''SearchResponse''"
    and "InnerType (extractTypeInfo ts) = T" and "T \<noteq> []"
    and "item = strings_TrimSuffix (strings_TrimSuffix T ''Response'') ''Request''
                @ (if variant = ''response'' then ''ItemRes'' else ''ItemReq'')"
    and "p' = snd (addAnnotations_visit f variant ig S (TypeSpec ts ks) p)"
  shows "generateAnnotationNameWithContext (extractTypeInfo ts) variant S = (ts_Name ts @ ''Res'', item)
    \<and> (\<forall>L. fst p' L \<noteq> fst p L \<longrightarrow>
          (L = ts_EndLine ts - 1 \<and> fst p' L = Some (ts_Name ts @ ''Res''))
          \<or> (fst p' L = Some item \<and> T \<notin> ig \<and>
              (\<exists>its \<in> set (declarations f). ts_Name its = T \<and> L = ts_EndLine its - 1)))
    \<and> (ts_Name ts @ ''Res'' \<notin> snd p \<and>
        (T \<in> ig \<or> item \<in> snd p \<or> item = ts_Name ts @ ''Res'' \<or>
         (\<forall>its \<in> set (declarations f). ts_Name its \<noteq> T)) \<longrightarrow>
          fst p' = (fst p)(ts_EndLine ts - 1 \<mapsto> ts_Name ts @ ''Res''))
    \<and> (\<forall>its0. T \<notin> ig \<and> item \<notin> snd p \<and> item \<noteq> ts_Name ts @ ''Res'' \<and>
          find (\<lambda>d. ts_Name d = T) (declarations f) = Some its0 \<longrightarrow>
          fst p' (ts_EndLine its0 - 1) = Some item \<and> item \<in> snd p')"
proof -
  let ?info = "extractTypeInfo ts"
  have nm: "Name ?info = ts_Name ts"
    using assms(4) by (simp add: extract_wrapper_name)
  have ne: "ts_Name ts \<noteq> []" using assms(1) by (rule IsExported_nonempty)
  have g: "generateAnnotationNameWithContext ?info variant S = (ts_Name ts @ ''Res'', item)"
    using assms(3-7) nm ne
    by (simp add: generateAnnotationNameWithContext_def stripSuffixes_def Let_def)
  define p1 where "p1 = (if ts_Name ts @ ''Res'' \<notin> snd p
                          then ((fst p)(ts_EndLine ts - 1 \<mapsto> ts_Name ts @ ''Res''),
                                insert (ts_Name ts @ ''Res'') (snd p))
                          else p)"
  define Q where "Q = (\<lambda>q :: plan. \<forall>L. fst q L \<noteq> fst p L \<longrightarrow>
          (L = ts_EndLine ts - 1 \<and> fst q L = Some (ts_Name ts @ ''Res''))
          \<or> (fst q L = Some item \<and> T \<notin> ig \<and>
              (\<exists>its \<in> set (declarations f). ts_Name its = T \<and> L = ts_EndLine its - 1)))"
  have q1: "Q p1" by (auto simp: Q_def p1_def)
  have q2: "Q (ast_Inspect (addAnnotations_inner ig T item) (f_Root f) p1)"
  proof (rule ast_Inspect_invariant [where P = Q, OF _ q1])
    fix m s
    assume m: "m \<in> set (preorder (f_Root f))" and s: "Q s"
    show "Q (snd (addAnnotations_inner ig T item m s))"
    proof (cases m)
      case (OtherNode ns)
      with s show ?thesis by (simp add: addAnnotations_inner_def)
    next
      case (TypeSpec its ns)
      with m have "its \<in> set (declarations f)"
        by (auto simp: declarations_def typeSpecsOf_set)
      with s TypeSpec show ?thesis
        by (auto simp: addAnnotations_inner_def Let_def Q_def)
    qed
  qed
  have ine: "item \<noteq> []" using assms(7) by auto
  then have p': "p' = (if item \<notin> snd p1
                    then ast_Inspect (addAnnotations_inner ig T item) (f_Root f) p1 else p1)"
    using assms(1,2,5,6,8) nm ne g
    by (simp add: addAnnotations_visit_def Let_def p1_def)
  with q1 q2 have "Q p'" by simp
  then have c2: "\<forall>L. fst p' L \<noteq> fst p L \<longrightarrow>
          (L = ts_EndLine ts - 1 \<and> fst p' L = Some (ts_Name ts @ ''Res''))
          \<or> (fst p' L = Some item \<and> T \<notin> ig \<and>
              (\<exists>its \<in> set (declarations f). ts_Name its = T \<and> L = ts_EndLine its - 1))"
    by (simp add: Q_def)
  have c3: "fst p' = (fst p)(ts_EndLine ts - 1 \<mapsto> ts_Name ts @ ''Res'')"
    if m: "ts_Name ts @ ''Res'' \<notin> snd p"
      and n: "T \<in> ig \<or> item \<in> snd p \<or> item = ts_Name ts @ ''Res'' \<or>
         (\<forall>its \<in> set (declarations f). ts_Name its \<noteq> T)"
  proof -
    have f1: "fst p1 = (fst p)(ts_EndLine ts - 1 \<mapsto> ts_Name ts @ ''Res'')"
      using m by (simp add: p1_def)
    show ?thesis
    proof (cases "item \<in> snd p1")
      case True
      with p' f1 show ?thesis by simp
    next
      case False
      with n m have n': "T \<in> ig \<or> (\<forall>its \<in> set (declarations f). ts_Name its \<noteq> T)"
        by (auto simp: p1_def)
      have "ast_Inspect (addAnnotations_inner ig T item) (f_Root f) p1 = p1"
      proof (rule ast_Inspect_invariant [where P = "\<lambda>s. s = p1"])
        fix m s
        assume m: "m \<in> set (preorder (f_Root f))" and s: "s = p1"
        show "snd (addAnnotations_inner ig T item m s) = p1"
        proof (cases m)
          case (OtherNode ns)
          with s show ?thesis by (simp add: addAnnotations_inner_def)
        next
          case (TypeSpec its ns)
          with m have "its \<in> set (declarations f)"
            by (auto simp: declarations_def typeSpecsOf_set)
          with n' s TypeSpec show ?thesis
            by (auto simp: addAnnotations_inner_def Let_def)
        qed
      qed simp
      with False p' f1 show ?thesis by simp
    qed
  qed
  have c4: "fst p' (ts_EndLine its0 - 1) = Some item \<and> item \<in> snd p'"
    if a: "T \<notin> ig" "item \<notin> snd p" "item \<noteq> ts_Name ts @ ''Res''"
      and fd: "find (\<lambda>d. ts_Name d = T) (declarations f) = Some its0" for its0
  proof -
    from a have "item \<notin> snd p1" by (simp add: p1_def)
    with p' have e: "p' = ast_Inspect (addAnnotations_inner ig T item) (f_Root f) p1" by simp
    from fd obtain ks0 where "find (namedNode T) (preorder (f_Root f)) = Some (TypeSpec its0 ks0)"
      unfolding declarations_def using find_typeSpecsOf by blast
    then show ?thesis
      unfolding e using a(1) by (intro inner_reaches_first)
  qed
  from g c2 c3 c4 show ?thesis by blast
qed

section \<open>Exported names\<close>

text \<open>
  \<open>ast.IsExported\<close> looks at the first rune: \<open>Widget\<close> and the names that start with
  the capitals \<open>U+00C9\<close> or \<open>U+03A9\<close> are exported; names that start with a small letter,
  an underscore or a letter without case are not.
\<close>

lemma IsExported_examples:
  "IsExported ''Widget''"
  "\<not> IsExported ''widget''"
  "\<not> IsExported ''_Widget''"
  "\<not> IsExported []"
  "IsExported [CHR 0xC3, CHR 0x89, CHR ''l'', CHR ''a'', CHR ''n'']"
  "\<not> IsExported [CHR 0xC3, CHR 0xA9, CHR ''l'', CHR ''a'', CHR ''n'']"
  "IsExported [CHR 0xCE, CHR 0xA9, CHR ''m'']"
  "\<not> IsExported [CHR 0xE4, CHR 0xB8, CHR 0x96]"
  by code_simp+

section \<open>The claims\<close>

subsection \<open>C1: idempotence of the patching pipeline\<close>

text \<open>
  Claim C1, amended. For every parsed file, its lines, variant and prefix: applying the
  plan that the three passes compute to the lines that its first application produced
  changes no line and returns the count 0. Hence the second run of \<open>processFile\<close> on a
  file leaves the world and the counters as the first run left them, provided the first
  run succeeded and the analysis of the file as it now stands plans the same names on the
  same lines. (The prefix and the planned names are taken to hold no newline, so that the
  rewritten text splits into the lines that were joined.) Without the proviso the second
  run can change the file again: see the counterexample that follows.
\<close>

theorem rerun_with_same_plan:
  "applyAnnotations (fst (applyAnnotations lines (multiPass f lines variant) pre r))
       (multiPass f lines variant) pre r'
     = (fst (applyAnnotations lines (multiPass f lines variant) pre r), r', 0)
   \<and> (w_ReadFile w fn = Inr src \<and> e_ParseFile e fn src = Inr f \<and>
       processFile e fn pre variant (w, r) = (None, w1, r1) \<and>
       w_ReadFile w1 fn = Inr src1 \<and> e_ParseFile e fn src1 = Inr f1 \<and>
       (\<forall>i < length (bytes_Split src1).
           multiPass f1 (bytes_Split src1) variant (int i)
             = multiPass f (bytes_Split src) variant (int i)) \<and>
       CHR 0x0A \<notin> set pre \<and>
       (\<forall>L n. multiPass f (bytes_Split src) variant L = Some n \<longrightarrow> CHR 0x0A \<notin> set n)
       \<longrightarrow> processFile e fn pre variant (w1, r1) = (None, w1, r1))"
proof (intro conjI impI)
  show "applyAnnotations (fst (applyAnnotations lines (multiPass f lines variant) pre r))
       (multiPass f lines variant) pre r'
     = (fst (applyAnnotations lines (multiPass f lines variant) pre r), r', 0)"
    by (rule reapplying_plan_changes_nothing)
next
  assume "w_ReadFile w fn = Inr src \<and> e_ParseFile e fn src = Inr f \<and>
       processFile e fn pre variant (w, r) = (None, w1, r1) \<and>
       w_ReadFile w1 fn = Inr src1 \<and> e_ParseFile e fn src1 = Inr f1 \<and>
       (\<forall>i < length (bytes_Split src1).
           multiPass f1 (bytes_Split src1) variant (int i)
             = multiPass f (bytes_Split src) variant (int i)) \<and>
       CHR 0x0A \<notin> set pre \<and>
       (\<forall>L n. multiPass f (bytes_Split src) variant L = Some n \<longrightarrow> CHR 0x0A \<notin> set n)"
  then show "processFile e fn pre variant (w1, r1) = (None, w1, r1)"
    using second_run_same_plan [of w fn src e f pre variant r w1 r1 src1 f1] by blast
qed

text \<open>
  The theorem at a file with one declaration: the first run appends the directive and
  writes the file, the tree of the rewritten text has the same declaration and the
  directive as a comment, and the second run changes nothing.
\<close>

theorem rerun_with_same_plan_witness:
  "fst rerun_first = None
   \<and> w_ReadFile (fst (snd rerun_first)) flat_path = Inr (bytes_Join rerun_lines2)
   \<and> AnnotationsAdded (snd (snd rerun_first)) = 1
   \<and> processFile rerun_env flat_path ''rental.v1.'' ''response'' (snd rerun_first)
       = (None, snd rerun_first)"
proof -
  note t = rerun_with_same_plan [where w = flat_world and fn = flat_path
      and src = "bytes_Join flat_lines" and e = rerun_env and f = flat_ast
      and pre = "''rental.v1.''" and variant = "''response''" and r = emptyResult
      and ?w1.0 = "fst (snd rerun_first)" and ?r1.0 = "snd (snd rerun_first)"
      and ?src1.0 = "bytes_Join rerun_lines2" and ?f1.0 = rerun_ast2]
  have r0: "fst rerun_first = None" by code_simp
  have r1: "w_ReadFile (fst (snd rerun_first)) flat_path = Inr (bytes_Join rerun_lines2)"
    by code_simp
  have r2: "AnnotationsAdded (snd (snd rerun_first)) = 1" by code_simp
  have h1: "w_ReadFile flat_world flat_path = Inr (bytes_Join flat_lines)"
    by (simp add: flat_world_def)
  have h2: "e_ParseFile rerun_env flat_path (bytes_Join flat_lines) = Inr flat_ast"
    by (simp add: rerun_env_def)
  have h3: "processFile rerun_env flat_path ''rental.v1.'' ''response'' (flat_world, emptyResult)
              = (None, fst (snd rerun_first), snd (snd rerun_first))"
    using r0 by (simp add: rerun_first_def [symmetric] prod_eq_iff)
  have h5: "e_ParseFile rerun_env flat_path (bytes_Join rerun_lines2) = Inr rerun_ast2"
    by code_simp
  have "list_all (\<lambda>i. multiPass rerun_ast2 (bytes_Split (bytes_Join rerun_lines2)) ''response'' (int i)
                      = multiPass flat_ast (bytes_Split (bytes_Join flat_lines)) ''response'' (int i))
          [0..<length (bytes_Split (bytes_Join rerun_lines2))]"
    by code_simp
  then have h6: "\<forall>i < length (bytes_Split (bytes_Join rerun_lines2)).
           multiPass rerun_ast2 (bytes_Split (bytes_Join rerun_lines2)) ''response'' (int i)
             = multiPass flat_ast (bytes_Split (bytes_Join flat_lines)) ''response'' (int i)"
    by (simp add: list_all_iff)
  have h7: "CHR 0x0A \<notin> set ''rental.v1.''" by simp
  have h8: "\<forall>L n. multiPass flat_ast (bytes_Split (bytes_Join flat_lines)) ''response'' L = Some n
              \<longrightarrow> CHR 0x0A \<notin> set n"
  proof (intro allI impI)
    fix L n
    assume "multiPass flat_ast (bytes_Split (bytes_Join flat_lines)) ''response'' L = Some n"
    then obtain ts where "ts \<in> set (declarations flat_ast)" 
      and "multiPass flat_ast (bytes_Split (bytes_Join flat_lines)) ''response'' (ts_EndLine ts - 1) = Some n"
      using multiPass_lines by blast
    moreover have "declarations flat_ast = [\<lparr>ts_Doc = None, ts_Name = ''Foo'',
                   ts_Type = StructType, ts_PosLine = 3, ts_EndLine = 3\<rparr>]"
      by (simp add: declarations_def flat_ast_def)
    moreover have "multiPass flat_ast (bytes_Split (bytes_Join flat_lines)) ''response'' 2 = Some ''FooRes''"
      by code_simp
    ultimately show "CHR 0x0A \<notin> set n" by auto
  qed
  from t h1 h2 h3 r1 h5 h6 h7 h8
  have "processFile rerun_env flat_path ''rental.v1.'' ''response'' (fst (snd rerun_first), snd (snd rerun_first))
          = (None, fst (snd rerun_first), snd (snd rerun_first))"
    by blast
  with r0 r1 r2 show ?thesis by simp
qed

text \<open>
  Claim C1 as stated fails. In \<open>stale_lines\<close> the closing line of \<open>A\<close> bears a stale
  directive followed by the ignore marker, \<open>} // @name old.A @swagger:ignore\<close>. The
  comment is two lines below the name of \<open>A\<close>, so \<open>A\<close> is not ignored, and one line
  above \<open>B\<close>, so \<open>B\<close> is. The first run replaces the stale directive to the end of the
  line, which removes the marker. In the tree of the rewritten text (\<open>stale_ast2\<close>: the same
  declarations, the comment now \<open>// @name p.v1.ARes\<close>) \<open>B\<close> is no longer ignored, and
  the second run appends a directive to its line and writes the file again.
\<close>

theorem second_run_changes_file:
  "fst stale_run1 = None \<and>
   w_ReadFile (fst (snd stale_run1)) stale_path = Inr (bytes_Join stale_lines2) \<and>
   AnnotationsReplaced (snd (snd stale_run1)) = 1 \<and>
   fst stale_run2 = None \<and>
   w_ReadFile (fst (snd stale_run2)) stale_path = Inr (bytes_Join stale_lines3) \<and>
   AnnotationsAdded (snd (snd stale_run2)) = 1 \<and>
   bytes_Join stale_lines3 \<noteq> bytes_Join stale_lines2"
  by code_simp

subsection \<open>C2: replacing a stale directive\<close>

text \<open>
  Claim C2 does not hold of the code. The position of the marker is found in the trimmed
  line and then used to cut the untrimmed line, so with \<open>k\<close> bytes of leading white
  space the cut falls \<open>k\<close> bytes before the marker. Without indentation the stale
  directive is replaced where it starts. With four spaces of indentation the marker starts
  at byte 6 of the line, the cut is made at byte 2, and the closing brace of the
  declaration is lost.
\<close>

theorem replacement_cuts_declaration:
  "applyAnnotations [''} // @name old.v1.Foo''] [0 \<mapsto> ''FooRes''] ''proj.v1.'' emptyResult
     = ([''}  // @name proj.v1.FooRes''], ReplaceAnnotation emptyResult, 1)
   \<and> applyAnnotations [''    } // @name old.v1.Foo''] [0 \<mapsto> ''FooRes''] ''proj.v1.'' emptyResult
     = ([''   // @name proj.v1.FooRes''], ReplaceAnnotation emptyResult, 1)
   \<and> nameRegex_FindStringIndex (strings_TrimSpace ''    } // @name old.v1.Foo'') = Some 2
   \<and> nameRegex_FindStringIndex ''    } // @name old.v1.Foo'' = Some 6"
  by code_simp

subsection \<open>C3: naming a wrapper and its item\<close>

text \<open>
  Claim C3, amended. Let \<open>ts\<close> be a declaration classified as generic instantiation or
  alias with base \<open>SearchResponse\<close> and inner type \<open>T\<close>. The name generator returns the
  declared name followed by \<open>Res\<close>, whatever the variant, and as second name \<open>T\<close> with a
  trailing \<open>Response\<close> stripped and then a trailing \<open>Request\<close> stripped, followed by
  \<open>ItemRes\<close> in the response variant and by \<open>ItemReq\<close> otherwise. If \<open>ts\<close> is not
  exported or is ignored, visiting it leaves the plan as it was. Otherwise the visit
  changes the plan in two ways only: the first name at the end line of \<open>ts\<close>, and the
  second name at the end line of a declaration named \<open>T\<close>, which then exists in the file
  and is not ignored. If \<open>T\<close> is ignored or not declared in the file (or the second name
  is already taken), and the first name is still free, the visit adds the first name and
  nothing else. If \<open>T\<close> is not ignored, is declared in the file and the second name is
  still free, the visit does plan the second name at the end line of the first
  declaration named \<open>T\<close>.
\<close>

theorem wrapper_item_naming:
  assumes "IsGeneric (extractTypeInfo ts) \<or> IsAlias (extractTypeInfo ts)"
    and "GenericBase (extractTypeInfo ts) = ''SearchResponse''"
    and "InnerType (extractTypeInfo ts) = T" and "T \<noteq> []" and "ts_Name ts \<noteq> []"
    and "item = strings_TrimSuffix (strings_TrimSuffix T ''Response'') ''Request''
                @ (if variant = ''response'' then ''ItemRes'' else ''ItemReq'')"
    and "p' = snd (addAnnotations_visit f variant ig S (TypeSpec ts ks) p)"
  shows "generateAnnotationNameWithContext (extractTypeInfo ts) variant S = (ts_Name ts @ ''Res'', item)
    \<and> (\<not> IsExported (ts_Name ts) \<or> ts_Name ts \<in> ig \<longrightarrow> p' = p)
    \<and> (IsExported (ts_Name ts) \<and> ts_Name ts \<notin> ig \<longrightarrow>
        (\<forall>L. fst p' L \<noteq> fst p L \<longrightarrow>
          (L = ts_EndLine ts - 1 \<and> fst p' L = Some (ts_Name ts @ ''Res''))
          \<or> (fst p' L = Some item \<and> T \<notin> ig \<and>
              (\<exists>its \<in> set (declarations f). ts_Name its = T \<and> L = ts_EndLine its - 1)))
        \<and> (ts_Name ts @ ''Res'' \<notin> snd p \<and>
            (T \<in> ig \<or> item \<in> snd p \<or> item = ts_Name ts @ ''Res'' \<or>
             (\<forall>its \<in> set (declarations f). ts_Name its \<noteq> T)) \<longrightarrow>
              fst p' = (fst p)(ts_EndLine ts - 1 \<mapsto> ts_Name ts @ ''Res''))
        \<and> (\<forall>its0. T \<notin> ig \<and> item \<notin> snd p \<and> item \<noteq> ts_Name ts @ ''Res'' \<and>
              find (\<lambda>d. ts_Name d = T) (declarations f) = Some its0 \<longrightarrow>
              fst p' (ts_EndLine its0 - 1) = Some item \<and> item \<in> snd p'))"
proof (intro conjI impI)
  have nm: "Name (extractTypeInfo ts) = ts_Name ts"
    using assms(2) by (simp add: extract_wrapper_name)
  show "generateAnnotationNameWithContext (extractTypeInfo ts) variant S = (ts_Name ts @ ''Res'', item)"
    using assms(1-6) nm
    by (simp add: generateAnnotationNameWithContext_def stripSuffixes_def Let_def)
next
  assume "\<not> IsExported (ts_Name ts) \<or> ts_Name ts \<in> ig"
  then show "p' = p"
    using assms(7) by (auto simp: addAnnotations_visit_def)
next
  assume a: "IsExported (ts_Name ts) \<and> ts_Name ts \<notin> ig"
  note v = wrapper_visit [OF conjunct1 [OF a] conjunct2 [OF a] assms(1-4) assms(6) assms(7)]
  from v show "\<forall>L. fst p' L \<noteq> fst p L \<longrightarrow>
          (L = ts_EndLine ts - 1 \<and> fst p' L = Some (ts_Name ts @ ''Res''))
          \<or> (fst p' L = Some item \<and> T \<notin> ig \<and>
              (\<exists>its \<in> set (declarations f). ts_Name its = T \<and> L = ts_EndLine its - 1))"
    by (rule conjunct1 [OF conjunct2])
  from v show "ts_Name ts @ ''Res'' \<notin> snd p \<and>
            (T \<in> ig \<or> item \<in> snd p \<or> item = ts_Name ts @ ''Res'' \<or>
             (\<forall>its \<in> set (declarations f). ts_Name its \<noteq> T)) \<Longrightarrow>
              fst p' = (fst p)(ts_EndLine ts - 1 \<mapsto> ts_Name ts @ ''Res'')"
    by (rule mp [OF conjunct1 [OF conjunct2 [OF conjunct2]]])
  from v show "\<forall>its0. T \<notin> ig \<and> item \<notin> snd p \<and> item \<noteq> ts_Name ts @ ''Res'' \<and>
              find (\<lambda>d. ts_Name d = T) (declarations f) = Some its0 \<longrightarrow>
              fst p' (ts_EndLine its0 - 1) = Some item \<and> item \<in> snd p'"
    by (rule conjunct2 [OF conjunct2 [OF conjunct2]])
qed

text \<open>
  The theorem at the wrapper \<open>WidgetList\<close> over \<open>WidgetResponse\<close>: the names in both
  variants; the visit of the wrapper, from the empty plan, plans \<open>WidgetListRes\<close> at the
  wrapper's line (index 2) and \<open>WidgetItemRes\<close> at the end of \<open>WidgetResponse\<close>
  (index 6); in the file where \<open>WidgetResponse\<close> is ignored the same visit plans the
  wrapper's name only; and with the wrapper itself ignored it plans nothing.
\<close>

theorem wrapper_item_naming_witness:
  "generateAnnotationNameWithContext (extractTypeInfo pair_list) ''response'' {''WidgetResponse''}
     = (''WidgetListRes'', ''WidgetItemRes'')
   \<and> generateAnnotationNameWithContext (extractTypeInfo pair_list) ''request'' {''WidgetResponse''}
     = (''WidgetListRes'', ''WidgetItemReq'')
   \<and> fst (snd (addAnnotations_visit pair_ast ''response'' {} {''WidgetResponse''}
                  (TypeSpec pair_list []) (Map.empty, {}))) 6 = Some ''WidgetItemRes''
   \<and> fst (snd (addAnnotations_visit pair_ast ''response'' {} {''WidgetResponse''}
                  (TypeSpec pair_list []) (Map.empty, {}))) 2 = Some ''WidgetListRes''
   \<and> fst (snd (addAnnotations_visit hidden_ast ''response'' {''WidgetResponse''} {''WidgetResponse''}
                  (TypeSpec hidden_list []) (Map.empty, {}))) = [7 \<mapsto> ''WidgetListRes'']
   \<and> fst (snd (addAnnotations_visit hidden_ast ''response'' {''WidgetList''} {''WidgetResponse''}
                  (TypeSpec hidden_list []) (Map.empty, {}))) = Map.empty"
proof -
  have h: "IsGeneric (extractTypeInfo pair_list) \<or> IsAlias (extractTypeInfo pair_list)"
    "GenericBase (extractTypeInfo pair_list) = ''SearchResponse''"
    "InnerType (extractTypeInfo pair_list) = ''WidgetResponse''" "''WidgetResponse'' \<noteq> []"
    "ts_Name pair_list \<noteq> []"
    by code_simp+
  have x: "IsExported (ts_Name pair_list) \<and> ts_Name pair_list \<notin> {}"
    by code_simp
  have s1: "''WidgetItemRes'' = strings_TrimSuffix (strings_TrimSuffix ''WidgetResponse'' ''Response'') ''Request'' @
              (if ''response'' = ''response'' then ''ItemRes'' else ''ItemReq'')"
    by code_simp
  have s2: "''WidgetItemReq'' = strings_TrimSuffix (strings_TrimSuffix ''WidgetResponse'' ''Response'') ''Request'' @
              (if ''request'' = ''response'' then ''ItemRes'' else ''ItemReq'')"
    by code_simp
  note t1 = wrapper_item_naming [OF h s1 refl, where f = pair_ast and S = "{''WidgetResponse''}"
        and ks = "[]" and p = "(Map.empty, {})" and ig = "{}"]
  note t2 = wrapper_item_naming [OF h s2 refl, where f = pair_ast and S = "{''WidgetResponse''}"
        and ks = "[]" and p = "(Map.empty, {})" and ig = "{}"]
  have n: "ts_Name pair_list = ''WidgetList''" by (simp add: pair_list_def)
  have g1: "generateAnnotationNameWithContext (extractTypeInfo pair_list) ''response'' {''WidgetResponse''}
     = (''WidgetListRes'', ''WidgetItemRes'')"
    using t1 n by simp
  have g2: "generateAnnotationNameWithContext (extractTypeInfo pair_list) ''request'' {''WidgetResponse''}
     = (''WidgetListRes'', ''WidgetItemReq'')"
    using t2 n by simp
  have fd: "find (\<lambda>d. ts_Name d = ''WidgetResponse'') (declarations pair_ast) = Some pair_widget"
    by (simp add: declarations_def pair_ast_def pair_list_def pair_widget_def)
  have e: "ts_EndLine pair_widget - 1 = 6" by (simp add: pair_widget_def)
  have "''WidgetResponse'' \<notin> ({} :: string set) \<and> ''WidgetItemRes'' \<notin> snd (Map.empty :: int \<rightharpoonup> string, {} :: string set)
        \<and> ''WidgetItemRes'' \<noteq> ts_Name pair_list @ ''Res''"
    by (simp add: n)
  with t1 x fd have "fst (snd (addAnnotations_visit pair_ast ''response'' {} {''WidgetResponse''}
                  (TypeSpec pair_list []) (Map.empty, {}))) (ts_EndLine pair_widget - 1) = Some ''WidgetItemRes''"
    by blast
  then have p6: "fst (snd (addAnnotations_visit pair_ast ''response'' {} {''WidgetResponse''}
                  (TypeSpec pair_list []) (Map.empty, {}))) 6 = Some ''WidgetItemRes''"
    by (simp add: e)
  have p2: "fst (snd (addAnnotations_visit pair_ast ''response'' {} {''WidgetResponse''}
                  (TypeSpec pair_list []) (Map.empty, {}))) 2 = Some ''WidgetListRes''"
    by code_simp
  have h4: "IsGeneric (extractTypeInfo hidden_list) \<or> IsAlias (extractTypeInfo hidden_list)"
    "GenericBase (extractTypeInfo hidden_list) = ''SearchResponse''"
    "InnerType (extractTypeInfo hidden_list) = ''WidgetResponse''" "''WidgetResponse'' \<noteq> []"
    "ts_Name hidden_list \<noteq> []"
    by code_simp+
  have x4: "IsExported (ts_Name hidden_list) \<and> ts_Name hidden_list \<notin> {''WidgetResponse''}"
    by code_simp
  note t4 = wrapper_item_naming [OF h4 s1 refl, where f = hidden_ast and S = "{''WidgetResponse''}"
        and ks = "[]" and p = "(Map.empty, {})" and ig = "{''WidgetResponse''}"]
  note t5 = wrapper_item_naming [OF h4 s1 refl, where f = hidden_ast and S = "{''WidgetResponse''}"
        and ks = "[]" and p = "(Map.empty, {})" and ig = "{''WidgetList''}"]
  have n4: "ts_Name hidden_list = ''WidgetList''" "ts_EndLine hidden_list - 1 = 7"
    by (simp_all add: hidden_list_def)
  have "ts_Name hidden_list @ ''Res'' \<notin> snd (Map.empty :: int \<rightharpoonup> string, {} :: string set)
        \<and> ''WidgetResponse'' \<in> {''WidgetResponse''}"
    by simp
  with t4 x4 have "fst (snd (addAnnotations_visit hidden_ast ''response'' {''WidgetResponse''} {''WidgetResponse''}
                  (TypeSpec hidden_list []) (Map.empty, {})))
        = (fst (Map.empty :: int \<rightharpoonup> string, {} :: string set))(ts_EndLine hidden_list - 1 \<mapsto> ts_Name hidden_list @ ''Res'')"
    by blast
  then have p7: "fst (snd (addAnnotations_visit hidden_ast ''response'' {''WidgetResponse''} {''WidgetResponse''}
                  (TypeSpec hidden_list []) (Map.empty, {}))) = [7 \<mapsto> ''WidgetListRes'']"
    by (simp add: n4)
  have "ts_Name hidden_list \<in> {''WidgetList''}" by (simp add: n4)
  with t5 have "snd (addAnnotations_visit hidden_ast ''response'' {''WidgetList''} {''WidgetResponse''}
                  (TypeSpec hidden_list []) (Map.empty, {})) = (Map.empty, {})"
    by blast
  then have p8: "fst (snd (addAnnotations_visit hidden_ast ''response'' {''WidgetList''} {''WidgetResponse''}
                  (TypeSpec hidden_list []) (Map.empty, {}))) = Map.empty"
    by simp
  from g1 g2 p6 p2 p7 p8 show ?thesis by simp
qed

text \<open>
  Claim C3 as stated fails where it says that a trailing \<open>Response\<close> or \<open>Request\<close> is
  stripped: for the wrapper \<open>type WidgetList SearchResponse[WidgetRequestResponse]\<close> the
  second name is \<open>WidgetItemRes\<close>, with both suffixes gone, and neither of the names
  that stripping one suffix would give.
\<close>

theorem wrapper_strips_both_suffixes:
  "generateAnnotationNameWithContext (extractTypeInfo both_list) ''response'' {}
     = (''WidgetListRes'', ''WidgetItemRes'')
   \<and> strings_TrimSuffix ''WidgetRequestResponse'' ''Response'' @ ''ItemRes'' = ''WidgetRequestItemRes''
   \<and> strings_TrimSuffix ''WidgetRequestResponse'' ''Request'' @ ''ItemRes''
       = ''WidgetRequestResponseItemRes''"
  by code_simp

subsection \<open>C4: ignored declarations\<close>




text \<open>
  The marker is looked for around the line of the declaration's position, which is the
  line of its name, not around its end. The README of the repository tells the user to
  put the marker after the closing brace, and gives a declaration of three lines as its
  example. For that file the ignore set is empty and the declaration is annotated: the
  code does not do what the README says.
\<close>

theorem readme_marker_not_honoured:
  "findIgnoredTypes readme_ast readme_lines {} = {}
   \<and> multiPass readme_ast readme_lines ''response'' 4 = Some ''VehiclePricingSearchNamerRes''
   \<and> fst (applyAnnotations readme_lines (multiPass readme_ast readme_lines ''response'') ''rental.v1.''
            emptyResult) ! 4 = ''} // @swagger:ignore // @name rental.v1.VehiclePricingSearchNamerRes''"
  by code_simp

subsection \<open>C5: what patching leaves alone\<close>

text \<open>
  Claim C5. A line whose index is not in the plan comes out of \<open>applyAnnotations\<close> as it
  went in, and the number of lines is kept. \<open>processFile\<close> changes the world only if the
  file was read and parsed and \<open>applyAnnotations\<close> returned a count above zero. If
  every planned line already holds its expected directive, \<open>processFile\<close> returns with
  the world and the counters as they were.
\<close>

theorem patching_frame:
  "(\<forall>i < length lines. annotations (int i) = None \<longrightarrow>
        fst (applyAnnotations lines annotations pre r) ! i = lines ! i)
   \<and> length (fst (applyAnnotations lines annotations pre r)) = length lines
   \<and> (fst (snd (processFile e fn pre variant (w, r))) \<noteq> w \<longrightarrow>
        (\<exists>src f. w_ReadFile w fn = Inr src \<and> e_ParseFile e fn src = Inr f \<and>
           0 < snd (snd (applyAnnotations (bytes_Split src)
                            (multiPass f (bytes_Split src) variant) pre r))))
   \<and> (\<forall>src f. w_ReadFile w fn = Inr src \<and> e_ParseFile e fn src = Inr f \<and>
        (\<forall>i < length (bytes_Split src). \<forall>name.
           multiPass f (bytes_Split src) variant (int i) = Some name \<longrightarrow>
           strings_Contains (strings_TrimSpace (bytes_Split src ! i)) (expectedDirective pre name))
        \<longrightarrow> processFile e fn pre variant (w, r) = (None, w, r))"
proof (intro conjI allI impI)
  fix i assume "i < length lines" "annotations (int i) = None"
  then show "fst (applyAnnotations lines annotations pre r) ! i = lines ! i"
    by (simp add: applyAnnotations_def fold_body_none)
next
  show "length (fst (applyAnnotations lines annotations pre r)) = length lines"
    by (rule applyAnnotations_length)
next
  assume "fst (snd (processFile e fn pre variant (w, r))) \<noteq> w"
  then show "\<exists>src f. w_ReadFile w fn = Inr src \<and> e_ParseFile e fn src = Inr f \<and>
           0 < snd (snd (applyAnnotations (bytes_Split src)
                            (multiPass f (bytes_Split src) variant) pre r))"
    by (rule processFile_unchanged_or_applied)
next
  fix src f
  assume "w_ReadFile w fn = Inr src \<and> e_ParseFile e fn src = Inr f \<and>
        (\<forall>i < length (bytes_Split src). \<forall>name.
           multiPass f (bytes_Split src) variant (int i) = Some name \<longrightarrow>
           strings_Contains (strings_TrimSpace (bytes_Split src ! i)) (expectedDirective pre name))"
  then show "processFile e fn pre variant (w, r) = (None, w, r)"
    using processFile_all_correct by blast
qed

text \<open>
  The theorem at a file whose two directives are already right, which is left as it is,
  and at the lines of \<open>stale_lines\<close> with a plan for line 4 only: line 5 is kept, line 4 is
  patched.
\<close>

theorem patching_frame_witness:
  "processFile settled_env stale_path ''p.v1.'' ''response'' (settled_world, emptyResult)
     = (None, settled_world, emptyResult)
   \<and> fst (applyAnnotations stale_lines [4 \<mapsto> ''ARes''] ''p.v1.'' emptyResult) ! 5 = stale_lines ! 5
   \<and> fst (applyAnnotations stale_lines [4 \<mapsto> ''ARes''] ''p.v1.'' emptyResult) ! 4
       = ''}  // @name p.v1.ARes''"
proof -
  note t = patching_frame [where lines = stale_lines and annotations = "[4 \<mapsto> ''ARes'']"
      and pre = "''p.v1.''" and r = emptyResult and e = settled_env and fn = stale_path
      and variant = "''response''" and w = settled_world]
  have r: "w_ReadFile settled_world stale_path = Inr (bytes_Join stale_lines3)"
    by (simp add: settled_world_def)
  have p: "e_ParseFile settled_env stale_path (bytes_Join stale_lines3) = Inr settled_ast"
    by (simp add: settled_env_def)
  have s: "bytes_Split (bytes_Join stale_lines3) = stale_lines3"
    by code_simp
  have la: "list_all (\<lambda>i. case multiPass settled_ast stale_lines3 ''response'' (int i) of
                        None \<Rightarrow> True
                      | Some name \<Rightarrow> strings_Contains (strings_TrimSpace (stale_lines3 ! i))
                                       (expectedDirective ''p.v1.'' name))
          [0..<length stale_lines3]"
    by code_simp
  have c: "\<forall>i < length (bytes_Split (bytes_Join stale_lines3)). \<forall>name.
           multiPass settled_ast (bytes_Split (bytes_Join stale_lines3)) ''response'' (int i) = Some name \<longrightarrow>
           strings_Contains (strings_TrimSpace (bytes_Split (bytes_Join stale_lines3) ! i))
             (expectedDirective ''p.v1.'' name)"
    unfolding s
  proof (intro allI impI)
    fix i name
    assume i: "i < length stale_lines3"
      and m: "multiPass settled_ast stale_lines3 ''response'' (int i) = Some name"
    from la i have "case multiPass settled_ast stale_lines3 ''response'' (int i) of
                        None \<Rightarrow> True
                      | Some name \<Rightarrow> strings_Contains (strings_TrimSpace (stale_lines3 ! i))
                                       (expectedDirective ''p.v1.'' name)"
      by (simp add: list_all_iff)
    with m show "strings_Contains (strings_TrimSpace (stale_lines3 ! i))
                   (expectedDirective ''p.v1.'' name)"
      by simp
  qed
  from t r p c have a: "processFile settled_env stale_path ''p.v1.'' ''response'' (settled_world, emptyResult)
     = (None, settled_world, emptyResult)"
    by blast
  have "5 < length stale_lines" "[(4::int) \<mapsto> ''ARes''] (int 5) = None"
    by (simp_all add: stale_lines_def)
  with t have b: "fst (applyAnnotations stale_lines [4 \<mapsto> ''ARes''] ''p.v1.'' emptyResult) ! 5 = stale_lines ! 5"
    by blast
  have "fst (applyAnnotations stale_lines [4 \<mapsto> ''ARes''] ''p.v1.'' emptyResult) ! 4
       = ''}  // @name p.v1.ARes''"
    by code_simp
  with a b show ?thesis by simp
qed

subsection \<open>C6: stripping the suffix\<close>

text \<open>
  Claim C6, amended. For a declaration that is not a \<open>SearchResponse\<close> wrapper the name
  generator returns the declared name with a trailing \<open>Response\<close> stripped and then a
  trailing \<open>Request\<close> stripped from what is left, followed by the suffix of the variant;
  for a wrapper with an inner type, the second name is the inner type's name stripped in
  the same way, followed by the item suffix of the variant. The two strips are applied
  unconditionally, in that order. Both match exactly when the name ends in
  \<open>RequestResponse\<close>, and then both suffixes are removed; otherwise at most one matches
  and at most one suffix is removed.
\<close>

theorem suffix_stripping:
  "(Name info \<noteq> [] \<and> \<not> ((IsGeneric info \<or> IsAlias info) \<and> GenericBase info = ''SearchResponse'') \<longrightarrow>
      generateAnnotationNameWithContext info variant S =
        (strings_TrimSuffix (strings_TrimSuffix (Name info) ''Response'') ''Request'' @
           (if Name info \<in> S then (if variant = ''response'' then ''ItemRes'' else ''ItemReq'')
            else (if variant = ''response'' then ''Res'' else ''Req'')), []))
   \<and> (Name info \<noteq> [] \<and> (IsGeneric info \<or> IsAlias info) \<and> GenericBase info = ''SearchResponse''
        \<and> InnerType info \<noteq> [] \<longrightarrow>
      snd (generateAnnotationNameWithContext info variant S) =
        strings_TrimSuffix (strings_TrimSuffix (InnerType info) ''Response'') ''Request'' @
           (if variant = ''response'' then ''ItemRes'' else ''ItemReq''))
   \<and> (\<forall>name. strings_TrimSuffix (strings_TrimSuffix name ''Response'') ''Request'' =
        (if suffix ''RequestResponse'' name then take (length name - 15) name
         else if suffix ''Response'' name then take (length name - 8) name
         else if suffix ''Request'' name then take (length name - 7) name
         else name))
   \<and> (\<forall>name. (suffix ''Response'' name \<and> suffix ''Request'' (strings_TrimSuffix name ''Response''))
        = suffix ''RequestResponse'' name)"
proof -
  have a: "Name info \<noteq> [] \<and> \<not> ((IsGeneric info \<or> IsAlias info) \<and> GenericBase info = ''SearchResponse'') \<longrightarrow>
      generateAnnotationNameWithContext info variant S =
        (strings_TrimSuffix (strings_TrimSuffix (Name info) ''Response'') ''Request'' @
           (if Name info \<in> S then (if variant = ''response'' then ''ItemRes'' else ''ItemReq'')
            else (if variant = ''response'' then ''Res'' else ''Req'')), [])"
    by (auto simp: generateAnnotationNameWithContext_def stripSuffixes_def Let_def)
  have b: "Name info \<noteq> [] \<and> (IsGeneric info \<or> IsAlias info) \<and> GenericBase info = ''SearchResponse''
        \<and> InnerType info \<noteq> [] \<longrightarrow>
      snd (generateAnnotationNameWithContext info variant S) =
        strings_TrimSuffix (strings_TrimSuffix (InnerType info) ''Response'') ''Request'' @
           (if variant = ''response'' then ''ItemRes'' else ''ItemReq'')"
    by (simp add: generateAnnotationNameWithContext_def stripSuffixes_def Let_def)
  have c: "\<forall>name. strings_TrimSuffix (strings_TrimSuffix name ''Response'') ''Request'' =
        (if suffix ''RequestResponse'' name then take (length name - 15) name
         else if suffix ''Response'' name then take (length name - 8) name
         else if suffix ''Request'' name then take (length name - 7) name
         else name)"
    using stripSuffixes_cases unfolding stripSuffixes_def by blast
  have d: "\<forall>name. (suffix ''Response'' name \<and> suffix ''Request'' (strings_TrimSuffix name ''Response''))
        = suffix ''RequestResponse'' name"
    using both_strips by blast
  from a b c d show ?thesis by blast
qed

text \<open>
  The theorem at the declared name \<open>AdminRentalListResponse\<close>, as a payload and as a
  member of the inner-type set, and at the wrapper \<open>WidgetPage\<close> over \<open>WidgetRequest\<close>:
  one suffix is removed in each case, and on \<open>AdminRentalListResponse\<close> the first strip
  matches and the second does not.
\<close>

theorem suffix_stripping_witness:
  "generateAnnotationNameWithContext (extractTypeInfo rental_list) ''response'' {}
     = (''AdminRentalListRes'', [])
   \<and> generateAnnotationNameWithContext (extractTypeInfo rental_list) ''request''
        {''AdminRentalListResponse''} = (''AdminRentalListItemReq'', [])
   \<and> snd (generateAnnotationNameWithContext (extractTypeInfo request_page) ''request'' {})
     = ''WidgetItemReq''
   \<and> strings_TrimSuffix (strings_TrimSuffix ''AdminRentalListResponse'' ''Response'') ''Request''
     = ''AdminRentalList''
   \<and> suffix ''Response'' ''AdminRentalListResponse''
   \<and> \<not> suffix ''Request'' (strings_TrimSuffix ''AdminRentalListResponse'' ''Response'')"
proof -
  have r: "Name (extractTypeInfo rental_list) = ''AdminRentalListResponse''"
    "\<not> ((IsGeneric (extractTypeInfo rental_list) \<or> IsAlias (extractTypeInfo rental_list))
         \<and> GenericBase (extractTypeInfo rental_list) = ''SearchResponse'')"
    by code_simp+
  have q: "Name (extractTypeInfo request_page) = ''WidgetPage''"
    "IsGeneric (extractTypeInfo request_page) \<or> IsAlias (extractTypeInfo request_page)"
    "GenericBase (extractTypeInfo request_page) = ''SearchResponse''"
    "InnerType (extractTypeInfo request_page) = ''WidgetRequest''"
    by code_simp+
  have t1: "strings_TrimSuffix (strings_TrimSuffix ''AdminRentalListResponse'' ''Response'') ''Request''
     = ''AdminRentalList''"
    by code_simp
  have t2: "strings_TrimSuffix (strings_TrimSuffix ''WidgetRequest'' ''Response'') ''Request'' = ''Widget''"
    by code_simp
  have t3: "suffix ''Response'' ''AdminRentalListResponse''"
    by (simp add: suffix_def)
  have t4: "\<not> suffix ''RequestResponse'' ''AdminRentalListResponse''"
    by (simp add: suffix_def append_eq_append_conv2 append_eq_Cons_conv Cons_eq_append_conv)
  note s1 = suffix_stripping [of "extractTypeInfo rental_list" "''response''" "{}"]
  note s2 = suffix_stripping [of "extractTypeInfo rental_list" "''request''" "{''AdminRentalListResponse''}"]
  note s3 = suffix_stripping [of "extractTypeInfo request_page" "''request''" "{}"]
  have g1: "generateAnnotationNameWithContext (extractTypeInfo rental_list) ''response'' {}
     = (''AdminRentalListRes'', [])"
    using s1 r t1 by simp
  have g2: "generateAnnotationNameWithContext (extractTypeInfo rental_list) ''request''
        {''AdminRentalListResponse''} = (''AdminRentalListItemReq'', [])"
    using s2 r t1 by simp
  have g3: "snd (generateAnnotationNameWithContext (extractTypeInfo request_page) ''request'' {})
     = ''WidgetItemReq''"
    using s3 q t2 by simp
  have g4: "\<not> suffix ''Request'' (strings_TrimSuffix ''AdminRentalListResponse'' ''Response'')"
    using s1 t3 t4 by blast
  from g1 g2 g3 t1 t3 g4 show ?thesis by simp
qed

text \<open>
  Claim C6 as stated fails: \<open>FooRequestResponse\<close> is a legal type name, the name
  generator gives it the name \<open>FooRes\<close>, both strips match on it, and two suffixes are
  removed. The same happens to the inner type \<open>WidgetRequestResponse\<close> of a wrapper.
\<close>

theorem both_suffixes_stripped:
  "generateAnnotationNameWithContext (extractTypeInfo both_plain) ''response'' {} = (''FooRes'', [])
   \<and> strings_HasSuffix ''FooRequestResponse'' ''Response''
   \<and> strings_TrimSuffix ''FooRequestResponse'' ''Response'' = ''FooRequest''
   \<and> strings_HasSuffix ''FooRequest'' ''Request''
   \<and> strings_TrimSuffix ''FooRequest'' ''Request'' = ''Foo''
   \<and> snd (generateAnnotationNameWithContext (extractTypeInfo both_list) ''request'' {})
       = ''WidgetItemReq''"
  by code_simp

subsection \<open>C7: the inner-type set and the order of declarations\<close>

text \<open>
  Claim C7, amended. For every file, the inner-type set that \<open>processFile\<close> computes
  before name generation (from the ignore set of the same file) is exactly the set of
  inner type names of the exported declarations that are not ignored, have base
  \<open>SearchResponse\<close> and a non-empty inner type. A file whose declarations are the same up
  to order (the same names and declared types, wherever they stand) gives the same set,
  provided its ignore set is the same. The proviso is needed: the ignore set is computed
  from the lines on which declarations and comments stand, and a reordering can change
  it, as the counterexample below shows.
\<close>

theorem inner_types_order_independent:
  "findSearchResponseInnerTypes f (findIgnoredTypes f lines {}) {} =
     {InnerType (extractTypeInfo ts) | ts.
        ts \<in> set (declarations f) \<and> IsExported (ts_Name ts) \<and>
        ts_Name ts \<notin> findIgnoredTypes f lines {} \<and>
        GenericBase (extractTypeInfo ts) = ''SearchResponse'' \<and> InnerType (extractTypeInfo ts) \<noteq> []}
   \<and> (\<forall>f' lines'. mset (map declShape (declarations f')) = mset (map declShape (declarations f)) \<and>
         findIgnoredTypes f' lines' {} = findIgnoredTypes f lines {} \<longrightarrow>
         findSearchResponseInnerTypes f' (findIgnoredTypes f' lines' {}) {}
           = findSearchResponseInnerTypes f (findIgnoredTypes f lines {}) {})"
proof -
  have eq: "findSearchResponseInnerTypes f (findIgnoredTypes f lines {}) {} =
     {InnerType (extractTypeInfo ts) | ts.
        ts \<in> set (declarations f) \<and> IsExported (ts_Name ts) \<and>
        ts_Name ts \<notin> findIgnoredTypes f lines {} \<and>
        GenericBase (extractTypeInfo ts) = ''SearchResponse'' \<and> InnerType (extractTypeInfo ts) \<noteq> []}"
    by (simp add: findInner_eq isSearchWrapper_extract)
  have "findSearchResponseInnerTypes f' (findIgnoredTypes f' lines' {}) {}
           = findSearchResponseInnerTypes f (findIgnoredTypes f lines {}) {}"
    if m: "mset (map declShape (declarations f')) = mset (map declShape (declarations f))"
      and i: "findIgnoredTypes f' lines' {} = findIgnoredTypes f lines {}" for f' lines'
  proof -
    from m have "set (map declShape (declarations f')) = set (map declShape (declarations f))"
      by (rule mset_eq_setD)
    then have "findSearchResponseInnerTypes f' ig {} = findSearchResponseInnerTypes f ig {}" for ig
      using inner_types_mono [of f' f ig] inner_types_mono [of f f' ig]
      by blast
    with i show ?thesis by simp
  qed
  with eq show ?thesis by blast
qed

text \<open>
  The theorem at two files without comments that declare \<open>WidgetList\<close> and
  \<open>WidgetResponse\<close> in opposite orders.
\<close>

theorem inner_types_order_independent_witness:
  "findSearchResponseInnerTypes swap_ast (findIgnoredTypes swap_ast swap_lines {}) {}
     = findSearchResponseInnerTypes pair_ast (findIgnoredTypes pair_ast pair_lines {}) {}
   \<and> findSearchResponseInnerTypes pair_ast (findIgnoredTypes pair_ast pair_lines {}) {}
     = {''WidgetResponse''}"
proof -
  have m: "mset (map declShape (declarations swap_ast)) = mset (map declShape (declarations pair_ast))"
    by (simp add: declarations_def swap_ast_def pair_ast_def declShape_def
          pair_list_def pair_widget_def)
  have i1: "findIgnoredTypes swap_ast swap_lines {} = {}" by code_simp
  have i2: "findIgnoredTypes pair_ast pair_lines {} = {}" by code_simp
  from m i1 i2 inner_types_order_independent [of pair_ast pair_lines]
  have "findSearchResponseInnerTypes swap_ast (findIgnoredTypes swap_ast swap_lines {}) {}
     = findSearchResponseInnerTypes pair_ast (findIgnoredTypes pair_ast pair_lines {}) {}"
    by blast
  moreover have "findSearchResponseInnerTypes pair_ast (findIgnoredTypes pair_ast pair_lines {}) {}
     = {''WidgetResponse''}"
    by code_simp
  ultimately show ?thesis by simp
qed

text \<open>
  Claim C7 as stated fails. The two files declare \<open>List\<close> (a wrapper of \<open>Item\<close>) and
  \<open>Item\<close> on lines 3 and 4, in opposite orders, above \<open>Helper\<close> on line 5, which bears
  the marker in a trailing comment. The comment is within one line of whatever stands on
  line 4. In the first order that is \<open>Item\<close>: the wrapper is not ignored and the
  inner-type set is \<open>{Item}\<close>. In the second order it is the wrapper \<open>List\<close>: the wrapper
  is ignored, the inner-type set is empty, and \<open>Item\<close> is named as a payload.
\<close>

theorem inner_types_depend_on_order:
  "mset (map declShape (declarations orderA_ast)) = mset (map declShape (declarations orderB_ast))
   \<and> findIgnoredTypes orderA_ast orderA_lines {} = {''Item'', ''Helper''}
   \<and> findIgnoredTypes orderB_ast orderB_lines {} = {''List'', ''Helper''}
   \<and> findSearchResponseInnerTypes orderA_ast (findIgnoredTypes orderA_ast orderA_lines {}) {}
       = {''Item''}
   \<and> findSearchResponseInnerTypes orderB_ast (findIgnoredTypes orderB_ast orderB_lines {}) {}
       = {}
   \<and> multiPass orderA_ast orderA_lines ''response'' 2 = Some ''ListRes''
   \<and> multiPass orderA_ast orderA_lines ''response'' 3 = None
   \<and> multiPass orderB_ast orderB_lines ''response'' 2 = Some ''ItemRes''
   \<and> multiPass orderB_ast orderB_lines ''response'' 3 = None"
proof -
  have m: "mset (map declShape (declarations orderA_ast)) = mset (map declShape (declarations orderB_ast))"
    by (simp add: declarations_def orderA_ast_def orderB_ast_def declShape_def add_mset_commute)
  have a: "findIgnoredTypes orderA_ast orderA_lines {} = {''Item'', ''Helper''}" by code_simp
  have b: "findIgnoredTypes orderB_ast orderB_lines {} = {''List'', ''Helper''}" by code_simp
  have c: "findSearchResponseInnerTypes orderA_ast (findIgnoredTypes orderA_ast orderA_lines {}) {}
       = {''Item''}" by code_simp
  have d: "findSearchResponseInnerTypes orderB_ast (findIgnoredTypes orderB_ast orderB_lines {}) {}
       = {}" by code_simp
  have e: "multiPass orderA_ast orderA_lines ''response'' 2 = Some ''ListRes''"
    "multiPass orderA_ast orderA_lines ''response'' 3 = None"
    "multiPass orderB_ast orderB_lines ''response'' 2 = Some ''ItemRes''"
    "multiPass orderB_ast orderB_lines ''response'' 3 = None"
    by code_simp+
  from m a b c d e show ?thesis by simp
qed

subsection \<open>C8: errors are collected and the run goes on\<close>

text \<open>
  Claim C8. A file that cannot be read, parsed or written makes \<open>processFile\<close> return
  the corresponding error. The function given to \<open>filepath.Walk\<close> never returns an error
  for an entry that was reached without a traversal error: when \<open>processSourceFile\<close>
  fails it appends the error, tagged with the path of the file, and returns \<open>nil\<close>. So
  the walk goes on: over both directories, the number of files processed is the number of
  \<open>.go\<close> files at least two segments below the base among the entries up to the first
  traversal error of each directory, whatever failed in between. Once the working
  directory is known, \<open>Run\<close> returns an error exactly when at least one error was
  recorded.
\<close>

theorem errors_accumulate_without_abort:
  "(w_ReadFile w fn = Inl err \<longrightarrow>
      processFile e fn pre variant (w, r) = (Some (ReadingFile err), w, r))
   \<and> (w_ReadFile w fn = Inr src \<and> e_ParseFile e fn src = Inl err \<longrightarrow>
      processFile e fn pre variant (w, r) = (Some (ParsingFile err), w, r))
   \<and> (w_ReadFile w fn = Inr src \<and> e_ParseFile e fn src = Inr f \<and>
      0 < snd (snd (applyAnnotations (bytes_Split src) (multiPass f (bytes_Split src) variant) pre r)) \<and>
      w_WriteError w fn = Some err \<longrightarrow>
      fst (processFile e fn pre variant (w, r)) = Some (WritingFile (WritingToFile err)))
   \<and> (wc_err c = None \<longrightarrow> fst (walkFn e root pp dir c st) = None)
   \<and> (wc_err c = None \<and> \<not> wc_IsDir c \<and> strings_HasSuffix (wc_Name c) ''.go'' \<and>
      processSourceFile e root (wc_path c) pp dir st = (Some err, w', r') \<longrightarrow>
      walkFn e root pp dir c st = (None, w', AddError (ProcessingPath (wc_path c) err) r'))
   \<and> FilesProcessed (snd (processSourceDirectories e root pp w)) =
       length (filter (eligible root) (reached (e_Walk e (root @ basePath @ [''request'']))))
       + length (filter (eligible root) (reached (e_Walk e (root @ basePath @ [''response'']))))
   \<and> (e_Getwd e = Inr root \<longrightarrow>
       (fst (Run e w) \<noteq> None) =
         (Errors (snd (processSourceDirectories e root (getProjectPrefix e) w)) \<noteq> []))"
  using processFile_read_fails [of w fn err e pre variant r]
    processFile_parse_fails [of w fn src e err pre variant r]
    processFile_write_fails [of w fn src e f variant pre r err]
    walkFn_continues [of c e root pp dir st]
    walkFn_records [of c e root pp dir st err w' r']
    processSourceDirectories_FilesProcessed [of e root pp w]
    Run_verdict [of e root w]
  by blast

text \<open>
  The theorem at a tree with a file that cannot be read, one that cannot be parsed, a
  sound one, and one that cannot be written: the three errors are recorded with their
  paths, all four files are counted, the sound file is annotated after two failures, and
  the run reports failure.
\<close>

theorem errors_accumulate_without_abort_witness:
  "processFile tree_env (tree_request @ [''v1'', ''bad.go'']) ''rental.v1.'' ''request''
       (tree_world, AddFile emptyResult)
     = (Some (ReadingFile (External ''permission denied'')), tree_world, AddFile emptyResult)
   \<and> FilesProcessed (snd (processSourceDirectories tree_env [''repo''] ''rental'' tree_world)) = 4
   \<and> Errors (snd (processSourceDirectories tree_env [''repo''] (getProjectPrefix tree_env) tree_world)) =
       [ProcessingPath (tree_request @ [''v1'', ''bad.go''])
          (ReadingFile (External ''permission denied'')),
        ProcessingPath (tree_request @ [''v1'', ''broken.go''])
          (ParsingFile (External ''syntax error'')),
        ProcessingPath (tree_request @ [''v1'', ''locked.go''])
          (WritingFile (WritingToFile (External ''read-only file system'')))]
   \<and> AnnotationsAdded (snd (processSourceDirectories tree_env [''repo''] (getProjectPrefix tree_env) tree_world)) = 2
   \<and> fst (Run tree_env tree_world) \<noteq> None"
proof -
  note t = errors_accumulate_without_abort [where e = tree_env and root = "[''repo'']"
      and pp = "''rental''" and w = tree_world and c = "hd tree_calls"
      and fn = "tree_request @ [''v1'', ''bad.go'']" and err = "External ''permission denied''"
      and pre = "''rental.v1.''" and variant = "''request''" and r = "AddFile emptyResult"]
  have "w_ReadFile tree_world (tree_request @ [''v1'', ''bad.go'']) = Inl (External ''permission denied'')"
    by code_simp
  with t have p: "processFile tree_env (tree_request @ [''v1'', ''bad.go'']) ''rental.v1.'' ''request''
       (tree_world, AddFile emptyResult)
     = (Some (ReadingFile (External ''permission denied'')), tree_world, AddFile emptyResult)"
    by blast
  have w: "e_Walk tree_env ([''repo''] @ basePath @ [''request'']) = tree_calls"
    "e_Walk tree_env ([''repo''] @ basePath @ [''response'']) = []"
    by (simp_all add: tree_env_def tree_request_def)
  have "length (filter (eligible [''repo'']) (reached tree_calls)) = 4"
    by code_simp
  with t w have f: "FilesProcessed (snd (processSourceDirectories tree_env [''repo''] ''rental'' tree_world)) = 4"
    by (simp add: reached_def)
  have e: "Errors (snd (processSourceDirectories tree_env [''repo''] (getProjectPrefix tree_env) tree_world)) =
       [ProcessingPath (tree_request @ [''v1'', ''bad.go''])
          (ReadingFile (External ''permission denied'')),
        ProcessingPath (tree_request @ [''v1'', ''broken.go''])
          (ParsingFile (External ''syntax error'')),
        ProcessingPath (tree_request @ [''v1'', ''locked.go''])
          (WritingFile (WritingToFile (External ''read-only file system'')))]"
    by code_simp
  have a: "AnnotationsAdded (snd (processSourceDirectories tree_env [''repo''] (getProjectPrefix tree_env) tree_world)) = 2"
    by code_simp
  have "e_Getwd tree_env = Inr [''repo'']" by (simp add: tree_env_def)
  with t e have "fst (Run tree_env tree_world) \<noteq> None" by simp
  with p f e a show ?thesis by simp
qed

subsection \<open>C9: a longer name that starts like the expected one\<close>

text \<open>
  Claim C9. The test for an already correct line is containment. If a planned line
  holds the expected directive text followed by anything at all, in particular by more
  characters of a longer and therefore wrong name, the iteration for that line changes
  neither the line nor the counters. (The name is taken to end in a byte that belongs to
  no white-space character, as every generated name does.)
\<close>

theorem longer_name_left_unchanged:
  assumes "annotations (int i) = Some name" and "name \<noteq> []" and "solid (last name)"
    and "i < length lines" and "lines ! i = X @ expectedDirective pre name @ extra"
  shows "applyAnnotations_body annotations pre i (lines, r, a) = (lines, r, a)
    \<and> fst (applyAnnotations lines annotations pre r) ! i = lines ! i"
proof -
  have c: "strings_Contains (strings_TrimSpace (lines ! i)) (expectedDirective pre name)"
    using assms(2,3,5) by (simp add: TrimSpace_keeps_directive)
  have "applyAnnotations_body annotations pre i (lines, r, a) = (lines, r, a)"
    using assms(1) c by (simp add: body_correct)
  moreover have "fst (applyAnnotations lines annotations pre r) ! i = lines ! i"
    using assms(1,4) c by (simp add: applyAnnotations_at patchLine_correct)
  ultimately show ?thesis by simp
qed

text \<open>
  The line \<open>} // @name p.v1.FooRes2\<close> with the expected name \<open>p.v1.FooRes\<close> is left
  as it is, with a count of 0.
\<close>

theorem longer_name_left_unchanged_witness:
  "applyAnnotations_body [0 \<mapsto> ''FooRes''] ''p.v1.'' 0 ([''} // @name p.v1.FooRes2''], emptyResult, 0)
     = ([''} // @name p.v1.FooRes2''], emptyResult, 0)
   \<and> applyAnnotations [''} // @name p.v1.FooRes2''] [0 \<mapsto> ''FooRes''] ''p.v1.'' emptyResult
     = ([''} // @name p.v1.FooRes2''], emptyResult, 0)"
proof -
  have b: "applyAnnotations_body [0 \<mapsto> ''FooRes''] ''p.v1.'' 0 ([''} // @name p.v1.FooRes2''], emptyResult, 0)
     = ([''} // @name p.v1.FooRes2''], emptyResult, 0)"
    using longer_name_left_unchanged [where annotations = "[0 \<mapsto> ''FooRes'']" and i = 0
        and name = "''FooRes''" and lines = "[''} // @name p.v1.FooRes2'']" and X = "''} // ''"
        and pre = "''p.v1.''" and extra = "''2''" and r = emptyResult and a = 0]
    by (simp add: solid_s expectedDirective_def)
  then show ?thesis
    by (simp add: applyAnnotations_def)
qed

subsection \<open>C10: the version is the second segment\<close>

text \<open>
  Claim C10. For a file at least two segments below the base directory,
  \<open>processSourceFile\<close> counts the file and processes it with the prefix made of the
  project name and the second segment of the relative path. A file directly inside a
  variant directory has its own name as second segment, so it is processed with the
  prefix \<open>project.filename.\<close> and not skipped.
\<close>

theorem version_is_second_segment:
  assumes "2 \<le> length segs"
  shows "processSourceFile e root (root @ basePath @ segs) projectPrefix dir (w, r) =
           processFile e (root @ basePath @ segs) (projectPrefix @ ''.'' @ segs ! 1 @ ''.'') dir
             (w, AddFile r)"
proof -
  from assms have "segs \<noteq> []" by auto
  then have "filepath_Rel (root @ basePath) ((root @ basePath) @ segs) = Inr segs"
    by (rule filepath_Rel_prefix)
  with assms show ?thesis
    by (simp add: processSourceFile_def Let_def)
qed

text \<open>
  The theorem at \<open>response/widget.go\<close>: the file is counted and its declaration gets the
  name \<open>rental.widget.go.FooRes\<close>.
\<close>

theorem version_is_second_segment_witness:
  "(case processSourceFile flat_env [''repo''] flat_path ''rental'' ''response''
           (flat_world, emptyResult) of
      (err, w', r') \<Rightarrow>
        err = None \<and> FilesProcessed r' = 1 \<and> AnnotationsAdded r' = 1 \<and>
        w_ReadFile w' flat_path =
          Inr (bytes_Join [''package response'', '''',
                           ''type Foo struct{} // @name rental.widget.go.FooRes'', '''']))"
proof -
  have "processSourceFile flat_env [''repo''] ([''repo''] @ basePath @ [''response'', ''widget.go''])
          ''rental'' ''response'' (flat_world, emptyResult) =
        processFile flat_env ([''repo''] @ basePath @ [''response'', ''widget.go''])
          (''rental'' @ ''.'' @ [''response'', ''widget.go''] ! 1 @ ''.'') ''response''
          (flat_world, AddFile emptyResult)"
    by (rule version_is_second_segment) simp
  moreover have "(case processFile flat_env flat_path ''rental.widget.go.'' ''response''
          (flat_world, AddFile emptyResult) of
      (err, w', r') \<Rightarrow>
        err = None \<and> FilesProcessed r' = 1 \<and> AnnotationsAdded r' = 1 \<and>
        w_ReadFile w' flat_path =
          Inr (bytes_Join [''package response'', '''',
                           ''type Foo struct{} // @name rental.widget.go.FooRes'', '''']))"
    by code_simp
  ultimately show ?thesis by (simp add: flat_path_def)
qed

end
